theory Spec2Isabelle
  imports Main "HOL-Library.Word"
begin

unbundle bit_operations_syntax

section \<open>Errors and JavaScript number operations\<close>

text \<open>
  The TypeScript sources throw \<open>RangeError\<close> (with a message), the plain \<open>Error\<close> of
  \<open>QrCodeUtil.assert\<close> and of the unreachable \<open>default\<close> branch, and, through the host,
  \<open>TypeError\<close> (indexing \<open>undefined\<close>) and \<open>URIError\<close> (\<open>encodeURI\<close> on an unpaired
  surrogate).  Every throw is a branch \<open>Inl e\<close> of the model.  \<open>OutsideModel\<close> marks a
  run that JavaScript would continue with the value \<open>undefined\<close> (a read or write past
  the end of an array): the model does not follow such a run any further.

  Numbers are modelled as \<open>int\<close>: every number the library computes with is an integer.
\<close>

datatype error =
    RangeError string
  | AssertionError
  | Unreachable
  | TypeError
  | URIError
  | OutsideModel

text \<open>The 32-bit operators of JavaScript on integers: both operands go through
  \<open>ToInt32\<close>/\<open>ToUint32\<close>, the shift count is taken modulo 32.\<close>

definition toInt32 :: "int \<Rightarrow> int" where
  "toInt32 x = signed_take_bit 31 x"

definition toUint32 :: "int \<Rightarrow> int" where
  "toUint32 x = take_bit 32 x"

definition js_shl :: "int \<Rightarrow> int \<Rightarrow> int" where
  "js_shl x n = toInt32 (push_bit (nat (n mod 32)) x)"

definition js_ushr :: "int \<Rightarrow> int \<Rightarrow> int" where
  "js_ushr x n = drop_bit (nat (n mod 32)) (toUint32 x)"

definition js_and :: "int \<Rightarrow> int \<Rightarrow> int" where
  "js_and x y = toInt32 (x AND y)"

definition js_or :: "int \<Rightarrow> int \<Rightarrow> int" where
  "js_or x y = toInt32 (x OR y)"

definition js_xor :: "int \<Rightarrow> int \<Rightarrow> int" where
  "js_xor x y = toInt32 (x XOR y)"

text \<open>Sequencing of computations that may throw, and the \<open>for ... of\<close> loop over the
  elements of an array with a loop body that may throw.\<close>

definition bindE :: "error + 'a \<Rightarrow> ('a \<Rightarrow> error + 'b) \<Rightarrow> error + 'b" where
  "bindE m f = (case m of Inl e \<Rightarrow> Inl e | Inr x \<Rightarrow> f x)"

fun forEachM :: "'a list \<Rightarrow> ('a \<Rightarrow> 's \<Rightarrow> error + 's) \<Rightarrow> 's \<Rightarrow> error + 's" where
  "forEachM [] body s = Inr s"
| "forEachM (x # xs) body s = bindE (body x s) (forEachM xs body)"

lemma bindE_cong [fundef_cong]:
  "m = m' \<Longrightarrow> (\<And>x. m' = Inr x \<Longrightarrow> f x = f' x) \<Longrightarrow> bindE m f = bindE m' f'"
  by (auto simp: bindE_def split: sum.splits)

section \<open>QrCodeUtil\<close>

text \<open>\<open>appendBits\<close>: the loop \<open>for (i = len - 1; i >= 0; i--) bb.push((val >>> i) & 1)\<close>
  counts \<open>i + 1\<close> down to \<open>0\<close>.\<close>

primrec appendBitsLoop :: "int \<Rightarrow> nat \<Rightarrow> int list \<Rightarrow> int list" where
  "appendBitsLoop val 0 bb = bb"
| "appendBitsLoop val (Suc i) bb = appendBitsLoop val i (bb @ [js_and (js_ushr val (int i)) 1])"

definition appendBits :: "int \<Rightarrow> int \<Rightarrow> int list \<Rightarrow> error + int list" where
  "appendBits val len bb =
     (if len < 0 \<or> len > 31 \<or> js_ushr val len \<noteq> 0
      then Inl (RangeError ''Value out of range'')
      else Inr (appendBitsLoop val (nat len) bb))"

definition getBit :: "int \<Rightarrow> int \<Rightarrow> bool" where
  "getBit x i = (js_and (js_ushr x i) 1 \<noteq> 0)"

definition assert :: "bool \<Rightarrow> error + unit" where
  "assert cond = (if \<not> cond then Inl AssertionError else Inr ())"

section \<open>QrEcc\<close>

datatype QrEcc = LOW | MEDIUM | QUARTILE | HIGH

fun ordinal :: "QrEcc \<Rightarrow> int" where
  "ordinal LOW = 0"
| "ordinal MEDIUM = 1"
| "ordinal QUARTILE = 2"
| "ordinal HIGH = 3"

fun formatBits :: "QrEcc \<Rightarrow> int" where
  "formatBits LOW = 1"
| "formatBits MEDIUM = 0"
| "formatBits QUARTILE = 3"
| "formatBits HIGH = 2"

section \<open>QrMode\<close>

datatype QrMode = NUMERIC | ALPHANUMERIC | BYTE | KANJI | ECI

fun modeBits :: "QrMode \<Rightarrow> int" where
  "modeBits NUMERIC = 0x1"
| "modeBits ALPHANUMERIC = 0x2"
| "modeBits BYTE = 0x4"
| "modeBits KANJI = 0x8"
| "modeBits ECI = 0x7"

fun numBitsCharCount :: "QrMode \<Rightarrow> int list" where
  "numBitsCharCount NUMERIC = [10, 12, 14]"
| "numBitsCharCount ALPHANUMERIC = [9, 11, 13]"
| "numBitsCharCount BYTE = [8, 16, 16]"
| "numBitsCharCount KANJI = [8, 10, 12]"
| "numBitsCharCount ECI = [0, 0, 0]"

text \<open>\<open>numCharCountBits\<close> reads \<open>numBitsCharCount[Math.floor((ver + 7) / 17)]\<close>; outside
  the three entries the read gives \<open>undefined\<close>.\<close>

definition numCharCountBits :: "QrMode \<Rightarrow> int \<Rightarrow> error + int" where
  "numCharCountBits m ver =
     (let idx = (ver + 7) div 17
      in if 0 \<le> idx \<and> idx < 3 then Inr (numBitsCharCount m ! nat idx) else Inl OutsideModel)"

section \<open>QrSegment\<close>

text \<open>A JavaScript string is a sequence of UTF-16 code units.\<close>

type_synonym jsstring = "16 word list"

definition codeUnits :: "string \<Rightarrow> jsstring" where
  "codeUnits cs = map (\<lambda>c. of_nat (of_char c)) cs"

record QrSegment =
  mode :: QrMode
  numChars :: int
  bitData :: "int list"

text \<open>The constructor: \<open>numChars < 0\<close> throws; the bit buffer is copied.\<close>

definition newQrSegment :: "QrMode \<Rightarrow> int \<Rightarrow> int list \<Rightarrow> error + QrSegment" where
  "newQrSegment m n bb =
     (if n < 0 then Inl (RangeError ''Invalid argument'')
      else Inr \<lparr>mode = m, numChars = n, bitData = bb\<rparr>)"

definition getData :: "QrSegment \<Rightarrow> int list" where
  "getData seg = bitData seg"

text \<open>The regular expressions \<open>/^[0-9]*$/\<close> and \<open>/^[A-Z0-9 $%*+.\/:-]*$/\<close> (no flags) accept
  exactly the strings all of whose code units are in the character class.\<close>

definition isDigitUnit :: "16 word \<Rightarrow> bool" where
  "isDigitUnit c = (0x30 \<le> c \<and> c \<le> 0x39)"

definition isAlphanumericUnit :: "16 word \<Rightarrow> bool" where
  "isAlphanumericUnit c =
     ((0x41 \<le> c \<and> c \<le> 0x5A) \<or> (0x30 \<le> c \<and> c \<le> 0x39) \<or>
      c \<in> set (codeUnits '' $%*+./:-''))"

definition isNumeric :: "jsstring \<Rightarrow> bool" where
  "isNumeric text = list_all isDigitUnit text"

definition isAlphanumeric :: "jsstring \<Rightarrow> bool" where
  "isAlphanumeric text = list_all isAlphanumericUnit text"

definition ALPHANUMERIC_CHARSET :: jsstring where
  "ALPHANUMERIC_CHARSET = codeUnits ''0123456789ABCDEFGHIJKLMNOPQRSTUVWXYZ $%*+-./:''"

text \<open>\<open>String.prototype.indexOf\<close> for a one-unit search string: the first index, or -1.\<close>

fun indexOf :: "jsstring \<Rightarrow> 16 word \<Rightarrow> int" where
  "indexOf [] c = -1"
| "indexOf (d # ds) c = (if d = c then 0 else (let r = indexOf ds c in if r < 0 then -1 else r + 1))"

text \<open>\<open>parseInt(s, radix)\<close> on a non-empty string of digits of the radix (upper-case
  letters for the digits from ten): the library calls it on nothing else (one to three
  decimal digits in \<open>makeNumeric\<close>, the two hexadecimal digits of a percent escape in
  \<open>toUtf8ByteArray\<close>).  On any other string the model stops.\<close>

definition digitValue :: "16 word \<Rightarrow> int" where
  "digitValue c = (if 0x30 \<le> c \<and> c \<le> 0x39 then uint c - 0x30
                   else if 0x41 \<le> c \<and> c \<le> 0x5A then uint c - 0x41 + 10
                   else if 0x61 \<le> c \<and> c \<le> 0x7A then uint c - 0x61 + 10 else 36)"

definition parseInt :: "jsstring \<Rightarrow> int \<Rightarrow> error + int" where
  "parseInt s radix =
     (if s \<noteq> [] \<and> 2 \<le> radix \<and> radix \<le> 36 \<and> list_all (\<lambda>c. digitValue c < radix) s
      then Inr (foldl (\<lambda>acc c. acc * radix + digitValue c) 0 s)
      else Inl OutsideModel)"

text \<open>\<open>makeBytes\<close>.\<close>

definition makeBytes :: "int list \<Rightarrow> error + QrSegment" where
  "makeBytes data =
     bindE (forEachM data (\<lambda>b bb. appendBits b 8 bb) [])
       (\<lambda>bb. newQrSegment BYTE (int (length data)) bb)"

text \<open>\<open>makeNumeric\<close>: the loop consumes up to three digits per iteration; the
  recursion is on the rest of the string, \<open>digits.substring(i)\<close>.\<close>

function makeNumericLoop :: "jsstring \<Rightarrow> int list \<Rightarrow> error + int list" where
  "makeNumericLoop rest bb =
     (if rest = [] then Inr bb
      else
        let n = min (length rest) 3
        in bindE (parseInt (take n rest) 10) (\<lambda>v.
           bindE (appendBits v (int n * 3 + 1) bb) (\<lambda>bb'.
           makeNumericLoop (drop n rest) bb')))"
  by pat_completeness auto
termination
  by (relation "measure (\<lambda>(rest, bb). length rest)") auto

declare makeNumericLoop.simps [simp del]

definition makeNumeric :: "jsstring \<Rightarrow> error + QrSegment" where
  "makeNumeric digits =
     (if \<not> isNumeric digits then Inl (RangeError ''String contains non-numeric characters'')
      else bindE (makeNumericLoop digits [])
             (\<lambda>bb. newQrSegment NUMERIC (int (length digits)) bb))"

text \<open>\<open>makeAlphanumeric\<close>: groups of two, then the one character that may remain.\<close>

fun makeAlphanumericLoop :: "jsstring \<Rightarrow> int list \<Rightarrow> error + int list" where
  "makeAlphanumericLoop (a # b # rest) bb =
     (let temp = indexOf ALPHANUMERIC_CHARSET a * 45;
          temp = temp + indexOf ALPHANUMERIC_CHARSET b
      in bindE (appendBits temp 11 bb) (makeAlphanumericLoop rest))"
| "makeAlphanumericLoop [a] bb = appendBits (indexOf ALPHANUMERIC_CHARSET a) 6 bb"
| "makeAlphanumericLoop [] bb = Inr bb"

definition makeAlphanumeric :: "jsstring \<Rightarrow> error + QrSegment" where
  "makeAlphanumeric text =
     (if \<not> isAlphanumeric text
      then Inl (RangeError ''String contains unencodable characters in alphanumeric mode'')
      else bindE (makeAlphanumericLoop text [])
             (\<lambda>bb. newQrSegment ALPHANUMERIC (int (length text)) bb))"

text \<open>\<open>makeEci\<close>.\<close>

definition makeEci :: "int \<Rightarrow> error + QrSegment" where
  "makeEci assignVal =
     bindE
       (if assignVal < 0 then Inl (RangeError ''ECI assignment value out of range'')
        else if assignVal < js_shl 1 7 then appendBits assignVal 8 []
        else if assignVal < js_shl 1 14 then
          bindE (appendBits 2 2 []) (\<lambda>bb. appendBits assignVal 14 bb)
        else if assignVal < 1000000 then
          bindE (appendBits 6 3 []) (\<lambda>bb. appendBits assignVal 21 bb)
        else Inl (RangeError ''ECI assignment value out of range''))
       (\<lambda>bb. newQrSegment ECI 0 bb)"

text \<open>\<open>getTotalBits\<close>: \<open>Infinity\<close> is a result of its own.\<close>

datatype number = Finite int | Infinity

fun number_le :: "number \<Rightarrow> int \<Rightarrow> bool" where
  "number_le (Finite a) b = (a \<le> b)"
| "number_le Infinity b = False"

fun getTotalBitsLoop :: "QrSegment list \<Rightarrow> int \<Rightarrow> int \<Rightarrow> error + number" where
  "getTotalBitsLoop [] version result = Inr (Finite result)"
| "getTotalBitsLoop (seg # segs) version result =
     bindE (numCharCountBits (mode seg) version) (\<lambda>ccbits.
       if numChars seg \<ge> js_shl 1 ccbits then Inr Infinity
       else getTotalBitsLoop segs version (result + (4 + ccbits + int (length (bitData seg)))))"

definition getTotalBits :: "QrSegment list \<Rightarrow> int \<Rightarrow> error + number" where
  "getTotalBits segs version = getTotalBitsLoop segs version 0"

text \<open>
  \<open>toUtf8ByteArray\<close> calls the host's \<open>encodeURI\<close>.  It is modelled after ECMA-262
  (\<open>Encode\<close> with the reserved and unescaped sets and \<open>#\<close>): a code unit of the
  unescaped set is copied; any other code point is read with \<open>CodePointAt\<close>, an unpaired
  surrogate throws \<open>URIError\<close>, and each octet of its UTF-8 encoding becomes \<open>%XY\<close> with
  upper-case hexadecimal digits.
\<close>

definition isLeadSurrogate :: "16 word \<Rightarrow> bool" where
  "isLeadSurrogate c = (0xD800 \<le> c \<and> c \<le> 0xDBFF)"

definition isTrailSurrogate :: "16 word \<Rightarrow> bool" where
  "isTrailSurrogate c = (0xDC00 \<le> c \<and> c \<le> 0xDFFF)"

definition surrogatePairToCodePoint :: "16 word \<Rightarrow> 16 word \<Rightarrow> int" where
  "surrogatePairToCodePoint lead trail = (uint lead - 0xD800) * 0x400 + (uint trail - 0xDC00) + 0x10000"

definition utf8Octets :: "int \<Rightarrow> int list" where
  "utf8Octets cp =
     (if cp < 0x80 then [cp]
      else if cp < 0x800 then [0xC0 + cp div 0x40, 0x80 + cp mod 0x40]
      else if cp < 0x10000 then
        [0xE0 + cp div 0x1000, 0x80 + (cp div 0x40) mod 0x40, 0x80 + cp mod 0x40]
      else
        [0xF0 + cp div 0x40000, 0x80 + (cp div 0x1000) mod 0x40,
         0x80 + (cp div 0x40) mod 0x40, 0x80 + cp mod 0x40])"

definition uriUnescapedSet :: "16 word set" where
  "uriUnescapedSet =
     set (codeUnits ''ABCDEFGHIJKLMNOPQRSTUVWXYZabcdefghijklmnopqrstuvwxyz0123456789'') \<union>
     set (codeUnits ''-_.!~*()'') \<union> {0x27} \<union> set (codeUnits '';/?:@&=+$,#'')"

definition hexDigit :: "int \<Rightarrow> 16 word" where
  "hexDigit n = codeUnits ''0123456789ABCDEF'' ! nat n"

definition percentEncode :: "int list \<Rightarrow> jsstring" where
  "percentEncode octets = concat (map (\<lambda>b. [0x25, hexDigit (b div 16), hexDigit (b mod 16)]) octets)"

fun encodeURILoop :: "jsstring \<Rightarrow> jsstring \<Rightarrow> error + jsstring" where
  "encodeURILoop [] R = Inr R"
| "encodeURILoop [c] R =
     (if c \<in> uriUnescapedSet then Inr (R @ [c])
      else if isLeadSurrogate c \<or> isTrailSurrogate c then Inl URIError
      else Inr (R @ percentEncode (utf8Octets (uint c))))"
| "encodeURILoop (c # d # rest) R =
     (if c \<in> uriUnescapedSet then encodeURILoop (d # rest) (R @ [c])
      else if isTrailSurrogate c then Inl URIError
      else if isLeadSurrogate c then
        (if isTrailSurrogate d
         then encodeURILoop rest (R @ percentEncode (utf8Octets (surrogatePairToCodePoint c d)))
         else Inl URIError)
      else encodeURILoop (d # rest) (R @ percentEncode (utf8Octets (uint c))))"

definition encodeURI :: "jsstring \<Rightarrow> error + jsstring" where
  "encodeURI str = encodeURILoop str []"

text \<open>\<open>toUtf8ByteArray\<close>: the loop over the escaped string; the recursion is on
  \<open>str.substring(i)\<close>.\<close>

function toUtf8ByteArrayLoop :: "jsstring \<Rightarrow> int list \<Rightarrow> error + int list" where
  "toUtf8ByteArrayLoop [] result = Inr result"
| "toUtf8ByteArrayLoop (c # rest) result =
     (if c \<noteq> 0x25 then toUtf8ByteArrayLoop rest (result @ [uint c])
      else bindE (parseInt (take 2 rest) 16) (\<lambda>v.
             toUtf8ByteArrayLoop (drop 2 rest) (result @ [v])))"
  by pat_completeness auto
termination
  by (relation "measure (\<lambda>(str, result). length str)") auto

declare toUtf8ByteArrayLoop.simps [simp del]

definition toUtf8ByteArray :: "jsstring \<Rightarrow> error + int list" where
  "toUtf8ByteArray str = bindE (encodeURI str) (\<lambda>str. toUtf8ByteArrayLoop str [])"

text \<open>\<open>makeSegments\<close>.\<close>

definition makeSegments :: "jsstring \<Rightarrow> error + QrSegment list" where
  "makeSegments text =
     (if text = [] then Inr []
      else if isNumeric text then bindE (makeNumeric text) (\<lambda>seg. Inr [seg])
      else if isAlphanumeric text then bindE (makeAlphanumeric text) (\<lambda>seg. Inr [seg])
      else bindE (toUtf8ByteArray text) (\<lambda>bytes. bindE (makeBytes bytes) (\<lambda>seg. Inr [seg])))"

section \<open>QrCode: constants and tables\<close>

definition MIN_VERSION :: int where
  "MIN_VERSION = 1"

definition MAX_VERSION :: int where
  "MAX_VERSION = 40"

definition ECC_CODEWORDS_PER_BLOCK :: "int list list" where
  "ECC_CODEWORDS_PER_BLOCK = [
    [-1, 7, 10, 15, 20, 26, 18, 20, 24, 30, 18, 20, 24, 26, 30, 22, 24, 28, 30, 28, 28, 28, 28, 30, 30, 26, 28, 30, 30, 30, 30, 30, 30, 30, 30, 30, 30, 30, 30, 30, 30],
    [-1, 10, 16, 26, 18, 24, 16, 18, 22, 22, 26, 30, 22, 22, 24, 24, 28, 28, 26, 26, 26, 26, 28, 28, 28, 28, 28, 28, 28, 28, 28, 28, 28, 28, 28, 28, 28, 28, 28, 28, 28],
    [-1, 13, 22, 18, 26, 18, 24, 18, 22, 20, 24, 28, 26, 24, 20, 30, 24, 28, 28, 26, 30, 28, 30, 30, 30, 30, 28, 30, 30, 30, 30, 30, 30, 30, 30, 30, 30, 30, 30, 30, 30],
    [-1, 17, 28, 22, 16, 22, 28, 26, 26, 24, 28, 24, 28, 22, 24, 24, 30, 28, 28, 26, 28, 30, 24, 30, 30, 30, 30, 30, 30, 30, 30, 30, 30, 30, 30, 30, 30, 30, 30, 30, 30]]"

definition NUM_ERROR_CORRECTION_BLOCKS :: "int list list" where
  "NUM_ERROR_CORRECTION_BLOCKS = [
    [-1, 1, 1, 1, 1, 1, 2, 2, 2, 2, 4, 4, 4, 4, 4, 6, 6, 6, 6, 7, 8, 8, 9, 9, 10, 12, 12, 12, 13, 14, 15, 16, 17, 18, 19, 19, 20, 21, 22, 24, 25],
    [-1, 1, 1, 1, 2, 2, 4, 4, 4, 5, 5, 5, 8, 9, 9, 10, 10, 11, 13, 14, 16, 17, 17, 18, 20, 21, 23, 25, 26, 28, 29, 31, 33, 35, 37, 38, 40, 43, 45, 47, 49],
    [-1, 1, 1, 2, 2, 4, 4, 6, 6, 8, 8, 8, 10, 12, 16, 12, 17, 16, 18, 21, 20, 23, 23, 25, 27, 29, 34, 34, 35, 38, 40, 43, 45, 48, 51, 53, 56, 59, 62, 65, 68],
    [-1, 1, 1, 2, 4, 4, 4, 5, 6, 8, 8, 11, 11, 16, 16, 18, 16, 19, 21, 25, 25, 25, 34, 30, 32, 35, 37, 40, 42, 45, 48, 51, 54, 57, 60, 63, 66, 70, 74, 77, 81]]"

text \<open>\<open>QrCode.getNumRawDataModules\<close>: the range check, the closed form, the assertion.\<close>

definition getNumRawDataModules :: "int \<Rightarrow> error + int" where
  "getNumRawDataModules ver =
     (if ver < MIN_VERSION \<or> ver > MAX_VERSION
      then Inl (RangeError ''Version number out of range'')
      else
        let result = (16 * ver + 128) * ver + 64;
            result =
              (if ver \<ge> 2 then
                 let numAlign = ver div 7 + 2;
                     result = result - ((25 * numAlign - 10) * numAlign - 55)
                 in (if ver \<ge> 7 then result - 36 else result)
               else result)
        in if 208 \<le> result \<and> result \<le> 29648 then Inr result else Inl AssertionError)"

text \<open>\<open>QrCode.getNumDataCodewords\<close>.  JavaScript evaluates the left operand of the
  subtraction first, so an out-of-range version throws before either table is read; the
  table reads below are therefore at an index in \<open>[1, 40]\<close>.\<close>

definition getNumDataCodewords :: "int \<Rightarrow> QrEcc \<Rightarrow> error + int" where
  "getNumDataCodewords ver ecl =
     (case getNumRawDataModules ver of
        Inl e \<Rightarrow> Inl e
      | Inr raw \<Rightarrow>
          Inr (raw div 8 -
               ECC_CODEWORDS_PER_BLOCK ! nat (ordinal ecl) ! nat ver *
               NUM_ERROR_CORRECTION_BLOCKS ! nat (ordinal ecl) ! nat ver))"

section \<open>QrCode: Reed-Solomon\<close>

text \<open>\<open>reedSolomonMultiply\<close>: the loop \<open>for (i = 7; i >= 0; i--)\<close> counts \<open>i + 1\<close> down.\<close>

primrec reedSolomonMultiplyLoop :: "int \<Rightarrow> int \<Rightarrow> nat \<Rightarrow> int \<Rightarrow> int" where
  "reedSolomonMultiplyLoop x y 0 z = z"
| "reedSolomonMultiplyLoop x y (Suc i) z =
     (let z = js_xor (js_shl z 1) (js_ushr z 7 * 0x11D);
          z = js_xor z (js_and (js_ushr y (int i)) 1 * x)
      in reedSolomonMultiplyLoop x y i z)"

definition reedSolomonMultiply :: "int \<Rightarrow> int \<Rightarrow> error + int" where
  "reedSolomonMultiply x y =
     (if js_ushr x 8 \<noteq> 0 \<or> js_ushr y 8 \<noteq> 0 then Inl (RangeError ''number out of range'')
      else
        let z = reedSolomonMultiplyLoop x y 8 0
        in bindE (assert (js_ushr z 8 = 0)) (\<lambda>_. Inr z))"

text \<open>\<open>reedSolomonComputeDivisor\<close>.  The inner loop runs over the indices of \<open>result\<close>,
  whose length does not change.\<close>

definition divisorInner :: "int \<Rightarrow> nat \<Rightarrow> int list \<Rightarrow> error + int list" where
  "divisorInner root j result =
     bindE (reedSolomonMultiply (result ! j) root) (\<lambda>m.
       let result = result[j := m]
       in if j + 1 < length result
          then Inr (result[j := js_xor (result ! j) (result ! (j + 1))])
          else Inr result)"

definition divisorOuter :: "nat \<Rightarrow> int list \<times> int \<Rightarrow> error + int list \<times> int" where
  "divisorOuter i st =
     (case st of (result, root) \<Rightarrow>
        bindE (forEachM [0..<length result] (divisorInner root) result) (\<lambda>result.
        bindE (reedSolomonMultiply root 0x02) (\<lambda>root. Inr (result, root))))"

definition reedSolomonComputeDivisor :: "int \<Rightarrow> error + int list" where
  "reedSolomonComputeDivisor degree =
     (if degree < 1 \<or> degree > 255 then Inl (RangeError ''Degree out of range'')
      else
        let result = replicate (nat (degree - 1)) 0 @ [1]
        in bindE (forEachM [0..<nat degree] divisorOuter (result, 1))
             (\<lambda>st. Inr (fst st)))"

text \<open>\<open>reedSolomonComputeRemainder\<close>.  \<open>result.shift()\<close> on an empty array gives
  \<open>undefined\<close>; \<open>result[i]\<close> is within \<open>result\<close> because \<open>result\<close> keeps the length of
  \<open>divisor\<close>, and past its end the model stops.\<close>

definition remainderInner :: "int \<Rightarrow> int \<times> nat \<Rightarrow> int list \<Rightarrow> error + int list" where
  "remainderInner factor ci result =
     (case ci of (coef, i) \<Rightarrow>
        bindE (reedSolomonMultiply coef factor) (\<lambda>m.
          if i < length result then Inr (result[i := js_xor (result ! i) m])
          else Inl OutsideModel))"

definition remainderStep :: "int list \<Rightarrow> int \<Rightarrow> int list \<Rightarrow> error + int list" where
  "remainderStep divisor b result =
     (case result of
        [] \<Rightarrow> Inl OutsideModel
      | r # rs \<Rightarrow>
          let factor = js_xor b r;
              result = rs @ [0]
          in forEachM (zip divisor [0..<length divisor]) (remainderInner factor) result)"

definition reedSolomonComputeRemainder :: "int list \<Rightarrow> int list \<Rightarrow> error + int list" where
  "reedSolomonComputeRemainder data divisor =
     forEachM data (remainderStep divisor) (map (\<lambda>_. 0) divisor)"

section \<open>QrCode: the symbol under construction\<close>

record QrCode =
  version :: int
  errorCorrectionLevel :: QrEcc
  size :: int
  mask :: int
  modules :: "bool list list"
  isFunction :: "bool list list"

text \<open>
  A grid is an array of rows.  \<open>grid[y][x]\<close> with no row \<open>y\<close> throws \<open>TypeError\<close> (the row is
  \<open>undefined\<close>); with a row \<open>y\<close> and no cell \<open>x\<close> the read gives \<open>undefined\<close> and the write
  grows the row, where the model stops.
\<close>

definition readCell :: "bool list list \<Rightarrow> int \<Rightarrow> int \<Rightarrow> error + bool" where
  "readCell grid x y =
     (if y < 0 \<or> y \<ge> int (length grid) then Inl TypeError
      else if x < 0 \<or> x \<ge> int (length (grid ! nat y)) then Inl OutsideModel
      else Inr (grid ! nat y ! nat x))"

definition writeCell :: "bool list list \<Rightarrow> int \<Rightarrow> int \<Rightarrow> bool \<Rightarrow> error + bool list list" where
  "writeCell grid x y b =
     (if y < 0 \<or> y \<ge> int (length grid) then Inl TypeError
      else if x < 0 \<or> x \<ge> int (length (grid ! nat y)) then Inl OutsideModel
      else Inr (grid[nat y := (grid ! nat y)[nat x := b]]))"

text \<open>\<open>Array.prototype.slice(start, end)\<close> on integers.\<close>

definition js_slice :: "'a list \<Rightarrow> int \<Rightarrow> int \<Rightarrow> 'a list" where
  "js_slice xs start end' =
     (let len = int (length xs);
          k = (if start < 0 then max (len + start) 0 else min start len);
          final = (if end' < 0 then max (len + end') 0 else min end' len)
      in take (nat (final - k)) (drop (nat k) xs))"

text \<open>\<open>addEccAndnumbererleave\<close>.  The operands of \<open>%\<close> and of \<open>Math.floor(a / b)\<close> are
  not negative here and the divisor is a table entry of a version in \<open>[1, 40]\<close>, where the
  JavaScript operators are \<open>mod\<close> and \<open>div\<close>.\<close>

definition splitBlock ::
  "int list \<Rightarrow> int list \<Rightarrow> int \<Rightarrow> int \<Rightarrow> int \<Rightarrow> int \<Rightarrow> int list list \<times> int \<Rightarrow>
   error + int list list \<times> int" where
  "splitBlock data rsDiv shortBlockLen blockEccLen numShortBlocks i st =
     (case st of (blocks, k) \<Rightarrow>
        let dat = js_slice data k (k + shortBlockLen - blockEccLen + (if i < numShortBlocks then 0 else 1));
            k = k + int (length dat)
        in bindE (reedSolomonComputeRemainder dat rsDiv) (\<lambda>ecc.
             let dat = (if i < numShortBlocks then dat @ [0] else dat)
             in Inr (blocks @ [dat @ ecc], k)))"

definition interleaveCell :: "int \<Rightarrow> int \<Rightarrow> int \<Rightarrow> int \<Rightarrow> int list \<times> int \<Rightarrow> int list \<Rightarrow> error + int list" where
  "interleaveCell shortBlockLen blockEccLen numShortBlocks i bj result =
     (case bj of (block, j) \<Rightarrow>
        if i \<noteq> shortBlockLen - blockEccLen \<or> j \<ge> numShortBlocks
        then (if nat i < length block then Inr (result @ [block ! nat i]) else Inl OutsideModel)
        else Inr result)"

definition addEccAndnumbererleave :: "QrCode \<Rightarrow> int list \<Rightarrow> error + int list" where
  "addEccAndnumbererleave this data =
     (let ver = version this; ecl = errorCorrectionLevel this
      in bindE (getNumDataCodewords ver ecl) (\<lambda>n.
         if int (length data) \<noteq> n then Inl (RangeError ''Invalid argument'')
         else
           let numBlocks = NUM_ERROR_CORRECTION_BLOCKS ! nat (ordinal ecl) ! nat ver;
               blockEccLen = ECC_CODEWORDS_PER_BLOCK ! nat (ordinal ecl) ! nat ver
           in bindE (getNumRawDataModules ver) (\<lambda>raw.
              let rawCodewords = raw div 8;
                  numShortBlocks = numBlocks - rawCodewords mod numBlocks;
                  shortBlockLen = rawCodewords div numBlocks
              in bindE (reedSolomonComputeDivisor blockEccLen) (\<lambda>rsDiv.
                 bindE (forEachM [0..numBlocks - 1]
                          (splitBlock data rsDiv shortBlockLen blockEccLen numShortBlocks) ([], 0)) (\<lambda>st.
                 let blocks = fst st
                 in if blocks = [] then Inl TypeError
                    else
                      bindE (forEachM [0..int (length (blocks ! 0)) - 1]
                               (\<lambda>i. forEachM (zip blocks [0..int (length blocks) - 1])
                                      (interleaveCell shortBlockLen blockEccLen numShortBlocks i)) []) (\<lambda>result.
                      bindE (assert (int (length result) = rawCodewords)) (\<lambda>_. Inr result)))))))"

section \<open>QrCode: drawing function modules\<close>

definition setFunctionModule :: "QrCode \<Rightarrow> int \<Rightarrow> int \<Rightarrow> bool \<Rightarrow> error + QrCode" where
  "setFunctionModule this x y isDark =
     bindE (writeCell (modules this) x y isDark) (\<lambda>m.
     bindE (writeCell (isFunction this) x y True) (\<lambda>f.
     Inr (this\<lparr>modules := m, isFunction := f\<rparr>)))"

definition drawFinderPattern :: "QrCode \<Rightarrow> int \<Rightarrow> int \<Rightarrow> error + QrCode" where
  "drawFinderPattern this x y =
     forEachM [-4..4] (\<lambda>dy. forEachM [-4..4] (\<lambda>dx this.
       let dist = max \<bar>dx\<bar> \<bar>dy\<bar>;
           xx = x + dx;
           yy = y + dy
       in if 0 \<le> xx \<and> xx < size this \<and> 0 \<le> yy \<and> yy < size this
          then setFunctionModule this xx yy (dist \<noteq> 2 \<and> dist \<noteq> 4)
          else Inr this)) this"

definition drawAlignmentPattern :: "QrCode \<Rightarrow> int \<Rightarrow> int \<Rightarrow> error + QrCode" where
  "drawAlignmentPattern this x y =
     forEachM [-2..2] (\<lambda>dy. forEachM [-2..2] (\<lambda>dx this.
       setFunctionModule this (x + dx) (y + dy) (max \<bar>dx\<bar> \<bar>dy\<bar> \<noteq> 1))) this"

text \<open>\<open>Math.ceil(a / b)\<close> on integers, \<open>b\<close> not zero.\<close>

definition ceilDiv :: "int \<Rightarrow> int \<Rightarrow> int" where
  "ceilDiv a b = - ((- a) div b)"

text \<open>\<open>getAlignmentPatternPositions\<close>: \<open>result.splice(1, 0, pos)\<close> inserts \<open>pos\<close> at
  index 1.  A zero divisor (no version in \<open>[1, 40]\<close> has one) makes the step infinite,
  where the model stops.\<close>

function alignmentLoop :: "int \<Rightarrow> int \<Rightarrow> int \<Rightarrow> int list \<Rightarrow> int list" where
  "alignmentLoop numAlign step pos result =
     (if int (length result) < numAlign
      then alignmentLoop numAlign step (pos - step) (take 1 result @ [pos] @ drop 1 result)
      else result)"
  by pat_completeness auto
termination
  by (relation "measure (\<lambda>(numAlign, step, pos, result). nat (numAlign - int (length result)))") auto

declare alignmentLoop.simps [simp del]

definition getAlignmentPatternPositions :: "QrCode \<Rightarrow> error + int list" where
  "getAlignmentPatternPositions this =
     (if version this = 1 then Inr []
      else
        let numAlign = version this div 7 + 2
        in if version this \<noteq> 32 \<and> numAlign * 2 - 2 = 0 then Inl OutsideModel
           else
             let step = (if version this = 32 then 26
                         else ceilDiv (version this * 4 + 4) (numAlign * 2 - 2) * 2)
             in Inr (alignmentLoop numAlign step (size this - 7) [6]))"

text \<open>The bit words of the format and version information.\<close>

primrec remLoop :: "int \<Rightarrow> int \<Rightarrow> nat \<Rightarrow> int \<Rightarrow> int" where
  "remLoop sh poly 0 rem = rem"
| "remLoop sh poly (Suc n) rem =
     remLoop sh poly n (js_xor (js_shl rem 1) (js_ushr rem sh * poly))"

definition formatWord :: "QrEcc \<Rightarrow> int \<Rightarrow> error + int" where
  "formatWord ecl msk =
     (let data = js_or (js_shl (formatBits ecl) 3) msk;
          rem = remLoop 9 0x537 10 data;
          bits = js_xor (js_or (js_shl data 10) rem) 0x5412
      in bindE (assert (js_ushr bits 15 = 0)) (\<lambda>_. Inr bits))"

definition drawFormatBits :: "QrCode \<Rightarrow> int \<Rightarrow> error + QrCode" where
  "drawFormatBits this msk =
     bindE (formatWord (errorCorrectionLevel this) msk) (\<lambda>bits.
     bindE (forEachM [0..5] (\<lambda>i this. setFunctionModule this 8 i (getBit bits i)) this) (\<lambda>this.
     bindE (setFunctionModule this 8 7 (getBit bits 6)) (\<lambda>this.
     bindE (setFunctionModule this 8 8 (getBit bits 7)) (\<lambda>this.
     bindE (setFunctionModule this 7 8 (getBit bits 8)) (\<lambda>this.
     bindE (forEachM [9..14] (\<lambda>i this. setFunctionModule this (14 - i) 8 (getBit bits i)) this) (\<lambda>this.
     bindE (forEachM [0..7]
              (\<lambda>i this. setFunctionModule this (size this - 1 - i) 8 (getBit bits i)) this) (\<lambda>this.
     bindE (forEachM [8..14]
              (\<lambda>i this. setFunctionModule this 8 (size this - 15 + i) (getBit bits i)) this) (\<lambda>this.
     setFunctionModule this 8 (size this - 8) True))))))))"

definition versionWord :: "int \<Rightarrow> error + int" where
  "versionWord ver =
     (let rem = remLoop 11 0x1F25 12 ver;
          bits = js_or (js_shl ver 12) rem
      in bindE (assert (js_ushr bits 18 = 0)) (\<lambda>_. Inr bits))"

definition drawVersion :: "QrCode \<Rightarrow> error + QrCode" where
  "drawVersion this =
     (if version this < 7 then Inr this
      else
        bindE (versionWord (version this)) (\<lambda>bits.
          forEachM [0..17] (\<lambda>i this.
            let color = getBit bits i;
                a = size this - 11 + i mod 3;
                b = i div 3
            in bindE (setFunctionModule this a b color) (\<lambda>this.
               setFunctionModule this b a color)) this))"

definition drawAlignmentAt :: "int list \<Rightarrow> int \<Rightarrow> int \<Rightarrow> QrCode \<Rightarrow> error + QrCode" where
  "drawAlignmentAt alignPatPos i j this =
     (let numAlign = int (length alignPatPos)
      in if \<not> (i = 0 \<and> j = 0 \<or> i = 0 \<and> j = numAlign - 1 \<or> i = numAlign - 1 \<and> j = 0)
         then drawAlignmentPattern this (alignPatPos ! nat i) (alignPatPos ! nat j)
         else Inr this)"

definition drawFunctionPatterns :: "QrCode \<Rightarrow> error + QrCode" where
  "drawFunctionPatterns this =
     bindE (forEachM [0..size this - 1] (\<lambda>i this.
              bindE (setFunctionModule this 6 i (i mod 2 = 0)) (\<lambda>this.
              setFunctionModule this i 6 (i mod 2 = 0))) this) (\<lambda>this.
     bindE (drawFinderPattern this 3 3) (\<lambda>this.
     bindE (drawFinderPattern this (size this - 4) 3) (\<lambda>this.
     bindE (drawFinderPattern this 3 (size this - 4)) (\<lambda>this.
     bindE (getAlignmentPatternPositions this) (\<lambda>alignPatPos.
     let numAlign = int (length alignPatPos)
     in bindE (forEachM [0..numAlign - 1] (\<lambda>i.
                 forEachM [0..numAlign - 1] (\<lambda>j. drawAlignmentAt alignPatPos i j)) this) (\<lambda>this.
        bindE (drawFormatBits this 0) (\<lambda>this.
        drawVersion this)))))))"

section \<open>QrCode: codewords and masking\<close>

text \<open>\<open>drawCodewords\<close>: the zigzag scan.  The state of the loops is the symbol and the
  bit index \<open>i\<close>.  \<open>data[i >>> 3]\<close> is read only when \<open>i < data.length * 8\<close>.\<close>

definition drawCodewordsCell ::
  "int list \<Rightarrow> int \<Rightarrow> int \<Rightarrow> int \<Rightarrow> QrCode \<times> int \<Rightarrow> error + QrCode \<times> int" where
  "drawCodewordsCell data right vert j st =
     (case st of (this, i) \<Rightarrow>
        let x = right - j;
            upward = (js_and (right + 1) 2 = 0);
            y = (if upward then size this - 1 - vert else vert)
        in bindE (readCell (isFunction this) x y) (\<lambda>f.
             if \<not> f \<and> i < int (length data) * 8 then
               bindE (writeCell (modules this) x y
                        (getBit (data ! nat (js_ushr i 3)) (7 - js_and i 7))) (\<lambda>m.
               Inr (this\<lparr>modules := m\<rparr>, i + 1))
             else Inr (this, i)))"

function drawCodewordsLoop :: "int list \<Rightarrow> int \<Rightarrow> QrCode \<times> int \<Rightarrow> error + QrCode \<times> int" where
  "drawCodewordsLoop data right st =
     (if right \<ge> 1 then
        let right = (if right = 6 then 5 else right)
        in bindE (forEachM [0..size (fst st) - 1] (\<lambda>vert.
                    forEachM [0..1] (\<lambda>j. drawCodewordsCell data right vert j)) st)
             (\<lambda>st. drawCodewordsLoop data (right - 2) st)
      else Inr st)"
  by pat_completeness auto
termination
  by (relation "measure (\<lambda>(data, right, st). nat right)") auto

declare drawCodewordsLoop.simps [simp del]

definition drawCodewords :: "QrCode \<Rightarrow> int list \<Rightarrow> error + QrCode" where
  "drawCodewords this data =
     bindE (getNumRawDataModules (version this)) (\<lambda>raw.
       if int (length data) \<noteq> raw div 8 then Inl (RangeError ''Invalid argument'')
       else
         bindE (drawCodewordsLoop data (size this - 1) (this, 0)) (\<lambda>st.
         bindE (assert (snd st = int (length data) * 8)) (\<lambda>_. Inr (fst st))))"

text \<open>\<open>applyMask\<close>: the \<open>switch\<close> over the mask, then the flip of a module that is not a
  function module.  The coordinates are not negative, where \<open>%\<close> is \<open>mod\<close>.\<close>

definition invert :: "int \<Rightarrow> int \<Rightarrow> int \<Rightarrow> error + bool" where
  "invert msk x y =
     (if msk = 0 then Inr ((x + y) mod 2 = 0)
      else if msk = 1 then Inr (y mod 2 = 0)
      else if msk = 2 then Inr (x mod 3 = 0)
      else if msk = 3 then Inr ((x + y) mod 3 = 0)
      else if msk = 4 then Inr ((x div 3 + y div 2) mod 2 = 0)
      else if msk = 5 then Inr (x * y mod 2 + x * y mod 3 = 0)
      else if msk = 6 then Inr ((x * y mod 2 + x * y mod 3) mod 2 = 0)
      else if msk = 7 then Inr (((x + y) mod 2 + x * y mod 3) mod 2 = 0)
      else Inl Unreachable)"

definition applyMaskCell :: "int \<Rightarrow> int \<Rightarrow> int \<Rightarrow> QrCode \<Rightarrow> error + QrCode" where
  "applyMaskCell msk y x this =
     bindE (invert msk x y) (\<lambda>inv.
     bindE (readCell (isFunction this) x y) (\<lambda>f.
       if \<not> f \<and> inv then
         bindE (readCell (modules this) x y) (\<lambda>c.
         bindE (writeCell (modules this) x y (\<not> c)) (\<lambda>m.
         Inr (this\<lparr>modules := m\<rparr>)))
       else Inr this))"

definition applyMask :: "QrCode \<Rightarrow> int \<Rightarrow> error + QrCode" where
  "applyMask this msk =
     (if msk < 0 \<or> msk > 7 then Inl (RangeError ''Mask value out of range'')
      else forEachM [0..size this - 1] (\<lambda>y.
             forEachM [0..size this - 1] (\<lambda>x. applyMaskCell msk y x)) this)"

section \<open>QrCode: penalty score\<close>

definition PENALTY_N1 :: int where "PENALTY_N1 = 3"
definition PENALTY_N2 :: int where "PENALTY_N2 = 3"
definition PENALTY_N3 :: int where "PENALTY_N3 = 40"
definition PENALTY_N4 :: int where "PENALTY_N4 = 10"

text \<open>The run history is an array of seven numbers: \<open>pop\<close> and \<open>unshift\<close> keep its
  length, and the reads below are at the indices 0 to 6.\<close>

definition finderPenaltyCountPatterns :: "QrCode \<Rightarrow> int list \<Rightarrow> error + int" where
  "finderPenaltyCountPatterns this runHistory =
     (let n = runHistory ! 1
      in bindE (assert (n \<le> size this * 3)) (\<lambda>_.
         let core = (n > 0 \<and> runHistory ! 2 = n \<and> runHistory ! 3 = n * 3 \<and>
                     runHistory ! 4 = n \<and> runHistory ! 5 = n)
         in Inr ((if core \<and> runHistory ! 0 \<ge> n * 4 \<and> runHistory ! 6 \<ge> n then 1 else 0)
               + (if core \<and> runHistory ! 6 \<ge> n * 4 \<and> runHistory ! 0 \<ge> n then 1 else 0))))"

definition finderPenaltyAddHistory :: "QrCode \<Rightarrow> int \<Rightarrow> int list \<Rightarrow> int list" where
  "finderPenaltyAddHistory this currentRunLength runHistory =
     (let currentRunLength =
            (if runHistory ! 0 = 0 then currentRunLength + size this else currentRunLength)
      in currentRunLength # butlast runHistory)"

definition finderPenaltyTerminateAndCount :: "QrCode \<Rightarrow> bool \<Rightarrow> int \<Rightarrow> int list \<Rightarrow> error + int" where
  "finderPenaltyTerminateAndCount this currentRunColor currentRunLength runHistory =
     (let (currentRunLength, runHistory) =
            (if currentRunColor
             then (0, finderPenaltyAddHistory this currentRunLength runHistory)
             else (currentRunLength, runHistory));
          currentRunLength = currentRunLength + size this;
          runHistory = finderPenaltyAddHistory this currentRunLength runHistory
      in finderPenaltyCountPatterns this runHistory)"

text \<open>One step of the scan of a line (a row or a column): the state is
  \<open>(result, runColor, runX, runHistory)\<close>, \<open>c\<close> the colour of the module read.\<close>

definition penaltyRunStep ::
  "QrCode \<Rightarrow> bool \<Rightarrow> int \<times> bool \<times> int \<times> int list \<Rightarrow> error + int \<times> bool \<times> int \<times> int list" where
  "penaltyRunStep this c st =
     (case st of (result, runColor, runX, runHistory) \<Rightarrow>
        if c = runColor then
          let runX = runX + 1
          in Inr ((if runX = 5 then result + PENALTY_N1
                   else if runX > 5 then result + 1 else result), runColor, runX, runHistory)
        else
          let runHistory = finderPenaltyAddHistory this runX runHistory
          in bindE (if \<not> runColor
                    then bindE (finderPenaltyCountPatterns this runHistory)
                           (\<lambda>n. Inr (result + n * PENALTY_N3))
                    else Inr result) (\<lambda>result.
             Inr (result, c, 1, runHistory)))"

definition penaltyLine :: "QrCode \<Rightarrow> bool \<Rightarrow> int \<Rightarrow> int \<Rightarrow> error + int" where
  "penaltyLine this horizontal k result =
     bindE (forEachM [0..size this - 1] (\<lambda>l st.
              bindE (if horizontal then readCell (modules this) l k
                     else readCell (modules this) k l) (\<lambda>c.
              penaltyRunStep this c st))
            (result, False, 0, [0, 0, 0, 0, 0, 0, 0])) (\<lambda>st.
       case st of (result, runColor, runX, runHistory) \<Rightarrow>
         bindE (finderPenaltyTerminateAndCount this runColor runX runHistory) (\<lambda>n.
         Inr (result + n * PENALTY_N3)))"

definition penaltyBlock :: "QrCode \<Rightarrow> int \<Rightarrow> int \<Rightarrow> int \<Rightarrow> error + int" where
  "penaltyBlock this y x result =
     bindE (readCell (modules this) x y) (\<lambda>color.
     bindE (readCell (modules this) (x + 1) y) (\<lambda>c1.
       if color = c1 then
         bindE (readCell (modules this) x (y + 1)) (\<lambda>c2.
           if color = c2 then
             bindE (readCell (modules this) (x + 1) (y + 1)) (\<lambda>c3.
               Inr (if color = c3 then result + PENALTY_N2 else result))
           else Inr result)
       else Inr result))"

definition getPenaltyScore :: "QrCode \<Rightarrow> error + int" where
  "getPenaltyScore this =
     bindE (forEachM [0..size this - 1] (penaltyLine this True) 0) (\<lambda>result.
     bindE (forEachM [0..size this - 1] (penaltyLine this False) result) (\<lambda>result.
     bindE (forEachM [0..size this - 2] (\<lambda>y.
              forEachM [0..size this - 2] (penaltyBlock this y)) result) (\<lambda>result.
       let dark = foldl (\<lambda>dark row. foldl (\<lambda>sum color. sum + (if color then 1 else 0)) dark row)
                    0 (modules this);
           total = size this * size this;
           k = ceilDiv \<bar>dark * 20 - total * 10\<bar> total - 1
       in bindE (assert (0 \<le> k \<and> k \<le> 9)) (\<lambda>_.
          let result = result + k * PENALTY_N4
          in bindE (assert (0 \<le> result \<and> result \<le> 2568888)) (\<lambda>_. Inr result)))))"

section \<open>QrCode: the constructor and the accessor\<close>

text \<open>One round of the automatic choice of the mask: the state is the symbol, the mask
  chosen so far and the least penalty.\<close>

definition autoMaskStep :: "int \<Rightarrow> QrCode \<times> int \<times> int \<Rightarrow> error + QrCode \<times> int \<times> int" where
  "autoMaskStep i st =
     (case st of (this, msk, minPenalty) \<Rightarrow>
        bindE (applyMask this i) (\<lambda>this.
        bindE (drawFormatBits this i) (\<lambda>this.
        bindE (getPenaltyScore this) (\<lambda>penalty.
        let (msk, minPenalty) = (if penalty < minPenalty then (i, penalty) else (msk, minPenalty))
        in bindE (applyMask this i) (\<lambda>this. Inr (this, msk, minPenalty))))))"

text \<open>The masking at the end of the constructor: the automatic choice when the argument
  is \<open>-1\<close>, then the assertion, the assignment of the field \<open>mask\<close>, the mask, the format
  bits, and the release of \<open>isFunction\<close>.\<close>

definition chooseMask :: "QrCode \<Rightarrow> int \<Rightarrow> error + QrCode \<times> int" where
  "chooseMask this msk =
     (if msk = -1
      then bindE (forEachM [0..7] autoMaskStep (this, msk, 1000000000))
             (\<lambda>st. case st of (this, msk, minPenalty) \<Rightarrow> Inr (this, msk))
      else Inr (this, msk))"

definition finishMask :: "QrCode \<Rightarrow> int \<Rightarrow> error + QrCode" where
  "finishMask this msk =
     bindE (assert (0 \<le> msk \<and> msk \<le> 7)) (\<lambda>_.
     let this = this\<lparr>mask := msk\<rparr>
     in bindE (applyMask this msk) (\<lambda>this.
        bindE (drawFormatBits this msk) (\<lambda>this.
        Inr (this\<lparr>isFunction := []\<rparr>))))"

text \<open>The constructor.  The two grids start as \<open>size\<close> rows of \<open>size\<close> light modules.  The
  field \<open>mask\<close> is assigned once, after the mask is chosen, and is not read before; the
  record holds the argument until then.\<close>

definition initialQrCode :: "int \<Rightarrow> QrEcc \<Rightarrow> int \<Rightarrow> QrCode" where
  "initialQrCode ver ecl msk =
     (let sz = ver * 4 + 17;
          row = replicate (nat sz) False
      in \<lparr>version = ver, errorCorrectionLevel = ecl, size = sz, mask = msk,
          modules = replicate (nat sz) row, isFunction = replicate (nat sz) row\<rparr>)"

definition newQrCode :: "int \<Rightarrow> QrEcc \<Rightarrow> int list \<Rightarrow> int \<Rightarrow> error + QrCode" where
  "newQrCode ver ecl dataCodewords msk =
     (if ver < MIN_VERSION \<or> ver > MAX_VERSION then Inl (RangeError ''Version value out of range'')
      else if msk < -1 \<or> msk > 7 then Inl (RangeError ''Mask value out of range'')
      else
        bindE (drawFunctionPatterns (initialQrCode ver ecl msk)) (\<lambda>this.
        bindE (addEccAndnumbererleave this dataCodewords) (\<lambda>allCodewords.
        bindE (drawCodewords this allCodewords) (\<lambda>this.
        bindE (chooseMask this msk) (\<lambda>chosen.
        case chosen of (this, msk) \<Rightarrow> finishMask this msk)))))"

text \<open>\<open>getModule\<close>: the chain of \<open>&&\<close> gives \<open>false\<close> at the first operand that is false,
  and the module otherwise.\<close>

definition getModule :: "QrCode \<Rightarrow> int \<Rightarrow> int \<Rightarrow> error + bool" where
  "getModule this x y =
     (if 0 \<le> x \<and> x < size this \<and> 0 \<le> y \<and> y < size this
      then readCell (modules this) x y
      else Inr False)"

section \<open>QrCode: encodeSegments\<close>

lemma appendBitsLoop_length: "length (appendBitsLoop val n bb) = length bb + n"
  by (induction n arbitrary: bb) auto

lemma appendBits_length: "appendBits val len bb = Inr bb' \<Longrightarrow> length bb' = length bb + nat len"
  by (auto simp: appendBits_def appendBitsLoop_length split: if_splits)

text \<open>The search for the version: \<open>for (version = minVersion; ; version++)\<close>.  It returns
  the version and the used bits.\<close>

function findVersion :: "QrSegment list \<Rightarrow> QrEcc \<Rightarrow> int \<Rightarrow> int \<Rightarrow> error + int \<times> int" where
  "findVersion segs ecl maxVersion ver =
     bindE (getNumDataCodewords ver ecl) (\<lambda>n.
       let dataCapacityBits = n * 8
       in bindE (getTotalBits segs ver) (\<lambda>usedBits.
            if number_le usedBits dataCapacityBits
            then Inr (ver, (case usedBits of Finite u \<Rightarrow> u | Infinity \<Rightarrow> 0))
            else if ver \<ge> maxVersion then Inl (RangeError ''Data too long'')
            else findVersion segs ecl maxVersion (ver + 1)))"
  by pat_completeness auto
termination
  by (relation "measure (\<lambda>(segs, ecl, maxVersion, ver). nat (maxVersion - ver))") auto

declare findVersion.simps [simp del]

text \<open>The boost of the error correction level, over \<open>[MEDIUM, QUARTILE, HIGH]\<close>.\<close>

fun boostLoop :: "QrEcc list \<Rightarrow> bool \<Rightarrow> int \<Rightarrow> int \<Rightarrow> QrEcc \<Rightarrow> error + QrEcc" where
  "boostLoop [] boostEcl dataUsedBits ver ecl = Inr ecl"
| "boostLoop (newEcl # rest) boostEcl dataUsedBits ver ecl =
     (if boostEcl then
        bindE (getNumDataCodewords ver newEcl) (\<lambda>n.
          boostLoop rest boostEcl dataUsedBits ver (if dataUsedBits \<le> n * 8 then newEcl else ecl))
      else boostLoop rest boostEcl dataUsedBits ver ecl)"

text \<open>The concatenation of the segments into the bit string.\<close>

definition concatSegment :: "int \<Rightarrow> QrSegment \<Rightarrow> int list \<Rightarrow> error + int list" where
  "concatSegment ver seg bb =
     bindE (appendBits (modeBits (mode seg)) 4 bb) (\<lambda>bb.
     bindE (numCharCountBits (mode seg) ver) (\<lambda>ccbits.
     bindE (appendBits (numChars seg) ccbits bb) (\<lambda>bb.
     Inr (bb @ getData seg))))"

text \<open>The padding with \<open>0xEC\<close> and \<open>0x11\<close> in turn.\<close>

function padLoop :: "int \<Rightarrow> int \<Rightarrow> int list \<Rightarrow> error + int list" where
  "padLoop dataCapacityBits padnumber bb =
     (if int (length bb) < dataCapacityBits
      then bindE (appendBits padnumber 8 bb)
             (\<lambda>bb. padLoop dataCapacityBits (js_xor padnumber (js_xor 0xEC 0x11)) bb)
      else Inr bb)"
  by pat_completeness auto
termination
  by (relation "measure (\<lambda>(cap, padnumber, bb). nat (cap - int (length bb)))")
     (auto dest: appendBits_length)

declare padLoop.simps [simp del]

text \<open>The packing of the bits into bytes: first the array of zeros, then
  \<open>dataCodewords[i >>> 3] |= b << (7 - (i & 7))\<close> for every bit; \<open>i >>> 3\<close> is within the
  array of zeros, and past its end the model stops.\<close>

function zerosLoop :: "int list \<Rightarrow> int list \<Rightarrow> int list" where
  "zerosLoop bb dataCodewords =
     (if length dataCodewords * 8 < length bb then zerosLoop bb (dataCodewords @ [0])
      else dataCodewords)"
  by pat_completeness auto
termination
  by (relation "measure (\<lambda>(bb, dataCodewords). length bb - length dataCodewords * 8)") auto

declare zerosLoop.simps [simp del]

definition packBit :: "int \<times> int \<Rightarrow> int list \<Rightarrow> error + int list" where
  "packBit bi dataCodewords =
     (case bi of (b, i) \<Rightarrow>
        let k = nat (js_ushr i 3)
        in if k < length dataCodewords
           then Inr (dataCodewords[k := js_or (dataCodewords ! k) (js_shl b (7 - js_and i 7))])
           else Inl OutsideModel)"

text \<open>The middle of \<open>encodeSegments\<close>: from the chosen version and level to the data
  codewords (concatenation, terminator, padding, packing).\<close>

definition assembleDataCodewords :: "QrSegment list \<Rightarrow> int \<Rightarrow> QrEcc \<Rightarrow> int \<Rightarrow> error + int list" where
  "assembleDataCodewords segs ver ecl dataUsedBits =
     bindE (forEachM segs (concatSegment ver) []) (\<lambda>bb.
     bindE (assert (int (length bb) = dataUsedBits)) (\<lambda>_.
     bindE (getNumDataCodewords ver ecl) (\<lambda>n.
     let dataCapacityBits = n * 8
     in bindE (assert (int (length bb) \<le> dataCapacityBits)) (\<lambda>_.
        bindE (appendBits 0 (min 4 (dataCapacityBits - int (length bb))) bb) (\<lambda>bb.
        bindE (appendBits 0 ((8 - int (length bb) mod 8) mod 8) bb) (\<lambda>bb.
        bindE (assert (int (length bb) mod 8 = 0)) (\<lambda>_.
        bindE (padLoop dataCapacityBits 0xEC bb) (\<lambda>bb.
        forEachM (zip bb [0..int (length bb) - 1]) packBit (zerosLoop bb [])))))))))"

definition encodeSegments ::
  "QrSegment list \<Rightarrow> QrEcc \<Rightarrow> int \<Rightarrow> int \<Rightarrow> int \<Rightarrow> bool \<Rightarrow> error + QrCode" where
  "encodeSegments segs ecl minVersion maxVersion msk boostEcl =
     (if \<not> (MIN_VERSION \<le> minVersion \<and> minVersion \<le> maxVersion \<and> maxVersion \<le> MAX_VERSION)
         \<or> msk < -1 \<or> msk > 7
      then Inl (RangeError ''Invalid value'')
      else
        bindE (findVersion segs ecl maxVersion minVersion) (\<lambda>found.
        case found of (ver, dataUsedBits) \<Rightarrow>
        bindE (boostLoop [MEDIUM, QUARTILE, HIGH] boostEcl dataUsedBits ver ecl) (\<lambda>ecl.
        bindE (assembleDataCodewords segs ver ecl dataUsedBits) (\<lambda>dataCodewords.
        newQrCode ver ecl dataCodewords msk))))"

section \<open>MyQrCode\<close>

text \<open>The fields of the facade; \<open>version\<close>, \<open>mask\<close> and \<open>size\<close> carry a prime, the names
  being those of the symbol's fields.\<close>

record MyQrCode =
  qrEcc :: QrEcc
  minVersion :: int
  maxVersion :: int
  version' :: int
  mask' :: int
  boostEcl :: bool
  dataText :: jsstring
  dataBinary :: "int list"
  size' :: int
  marix :: "bool list list"

text \<open>The argument object of \<open>updateParam\<close>: a property that is absent (or \<open>undefined\<close>)
  is \<open>None\<close>.\<close>

record UpdateParam =
  argQrEcc :: "QrEcc option"
  argMinVersion :: "int option"
  argMaxVersion :: "int option"
  argMask :: "int option"
  argBoostEcl :: "bool option"

text \<open>The default of a destructured parameter replaces an absent property; \<open>a ?? b\<close> is
  \<open>b\<close> when \<open>a\<close> is absent.\<close>

definition destructure :: "'a option \<Rightarrow> 'a \<Rightarrow> 'a option" where
  "destructure prop dflt = (case prop of None \<Rightarrow> Some dflt | Some v \<Rightarrow> Some v)"

definition nullish :: "'a option \<Rightarrow> 'a \<Rightarrow> 'a" where
  "nullish a b = (case a of None \<Rightarrow> b | Some v \<Rightarrow> v)"

definition updateParam :: "MyQrCode \<Rightarrow> UpdateParam \<Rightarrow> MyQrCode" where
  "updateParam this arg =
     (let qrEcc0 = destructure (argQrEcc arg) HIGH;
          minVersion0 = destructure (argMinVersion arg) 1;
          maxVersion0 = destructure (argMaxVersion arg) 40;
          mask0 = destructure (argMask arg) (-1);
          boostEcl0 = destructure (argBoostEcl arg) True
      in this\<lparr>qrEcc := nullish qrEcc0 (qrEcc this),
              minVersion := nullish minVersion0 (minVersion this),
              maxVersion := nullish maxVersion0 (maxVersion this),
              mask' := nullish mask0 (mask' this),
              boostEcl := nullish boostEcl0 (boostEcl this)\<rparr>)"

section \<open>Definitions after the specification\<close>

text \<open>The closed form as the specification writes it (section 4.5), for comparison.\<close>

definition rawModulesClosedForm :: "int \<Rightarrow> int" where
  "rawModulesClosedForm v =
     (16 * v + 128) * v + 64
     - (if v \<ge> 2 then (25 * (v div 7 + 2) - 10) * (v div 7 + 2) - 55 else 0)
     - (if v \<ge> 7 then 36 else 0)"

section \<open>Basic facts\<close>

lemma bindE_Inr [simp]: "bindE (Inr x) f = f x"
  by (simp add: bindE_def)

lemma bindE_Inl [simp]: "bindE (Inl e) f = Inl e"
  by (simp add: bindE_def)

lemma bindE_eq_Inr: "bindE m f = Inr y \<longleftrightarrow> (\<exists>x. m = Inr x \<and> f x = Inr y)"
  by (cases m) auto

lemma version_in_range: "1 \<le> v \<Longrightarrow> v \<le> 40 \<Longrightarrow> v \<in> set [1..40::int]"
  by simp

section \<open>Capacity of a version\<close>

definition rawModulesOk :: "int \<Rightarrow> bool" where
  "rawModulesOk v =
     (getNumRawDataModules v = Inr (rawModulesClosedForm v) \<and>
      208 \<le> rawModulesClosedForm v \<and> rawModulesClosedForm v \<le> 29648)"

definition dataCodewordsTable :: "int \<Rightarrow> QrEcc \<Rightarrow> int" where
  "dataCodewordsTable v ecl =
     rawModulesClosedForm v div 8 -
     ECC_CODEWORDS_PER_BLOCK ! nat (ordinal ecl) ! nat v *
     NUM_ERROR_CORRECTION_BLOCKS ! nat (ordinal ecl) ! nat v"

definition dataCodewordsOk :: "int \<Rightarrow> bool" where
  "dataCodewordsOk v = list_all (\<lambda>ecl. 0 \<le> dataCodewordsTable v ecl) [LOW, MEDIUM, QUARTILE, HIGH]"

lemma rawModulesOk_all: "list_all rawModulesOk [1..40]"
  by code_simp

lemma dataCodewordsOk_all: "list_all dataCodewordsOk [1..40]"
  by code_simp

lemma getNumRawDataModules_valid:
  assumes "1 \<le> v" "v \<le> 40"
  shows "getNumRawDataModules v = Inr (rawModulesClosedForm v)"
    and "208 \<le> rawModulesClosedForm v" and "rawModulesClosedForm v \<le> 29648"
  using rawModulesOk_all version_in_range[OF assms]
  by (auto simp: list_all_iff rawModulesOk_def)

lemma getNumDataCodewords_valid:
  assumes "1 \<le> v" "v \<le> 40"
  shows "getNumDataCodewords v ecl = Inr (dataCodewordsTable v ecl)"
  by (simp add: getNumDataCodewords_def getNumRawDataModules_valid[OF assms] dataCodewordsTable_def)

lemma dataCodewordsTable_nonneg:
  assumes "1 \<le> v" "v \<le> 40"
  shows "0 \<le> dataCodewordsTable v ecl"
  using dataCodewordsOk_all version_in_range[OF assms]
  by (cases ecl) (auto simp: list_all_iff dataCodewordsOk_def)

text \<open>
  Claim C7.  For every version \<open>v\<close> in \<open>[1, 40]\<close>, \<open>getNumRawDataModules v\<close> returns the
  closed form \<open>(16v + 128)v + 64\<close>, less \<open>(25a - 10)a - 55\<close> with \<open>a = v div 7 + 2\<close> when
  \<open>v \<ge> 2\<close>, less 36 when \<open>v \<ge> 7\<close>; the result lies in \<open>[208, 29648]\<close>; and for every
  error correction level \<open>getNumDataCodewords v ecc\<close> returns the raw modules divided by
  eight (rounded down) less the product of the two table entries, which is not negative.
\<close>

theorem C7_capacity:
  assumes "1 \<le> v" and "v \<le> 40"
  shows "getNumRawDataModules v = Inr (rawModulesClosedForm v) \<and>
         208 \<le> rawModulesClosedForm v \<and> rawModulesClosedForm v \<le> 29648 \<and>
         getNumDataCodewords v ecc =
           Inr (rawModulesClosedForm v div 8 -
                ECC_CODEWORDS_PER_BLOCK ! nat (ordinal ecc) ! nat v *
                NUM_ERROR_CORRECTION_BLOCKS ! nat (ordinal ecc) ! nat v) \<and>
         0 \<le> rawModulesClosedForm v div 8 -
                ECC_CODEWORDS_PER_BLOCK ! nat (ordinal ecc) ! nat v *
                NUM_ERROR_CORRECTION_BLOCKS ! nat (ordinal ecc) ! nat v"
  using getNumRawDataModules_valid[OF assms] getNumDataCodewords_valid[OF assms, of ecc]
    dataCodewordsTable_nonneg[OF assms, of ecc]
  by (simp add: dataCodewordsTable_def)

theorem C7_capacity_witness:
  "getNumRawDataModules 7 = Inr 1568 \<and> rawModulesClosedForm 7 = 1568 \<and>
   getNumDataCodewords 7 QUARTILE = Inr 88"
proof -
  have "rawModulesClosedForm 7 = 1568" by code_simp
  moreover have "ECC_CODEWORDS_PER_BLOCK ! nat (ordinal QUARTILE) ! nat 7 = 18" by code_simp
  moreover have "NUM_ERROR_CORRECTION_BLOCKS ! nat (ordinal QUARTILE) ! nat 7 = 6" by code_simp
  ultimately show ?thesis using C7_capacity[of 7 QUARTILE] by simp
qed

section \<open>The fields and the shape of the grids are kept\<close>

definition sameShape :: "QrCode \<Rightarrow> QrCode \<Rightarrow> bool" where
  "sameShape a b \<longleftrightarrow>
     version b = version a \<and> errorCorrectionLevel b = errorCorrectionLevel a \<and>
     size b = size a \<and> mask b = mask a \<and>
     map length (modules b) = map length (modules a) \<and>
     map length (isFunction b) = map length (isFunction a)"

lemma sameShape_refl [simp]: "sameShape a a"
  by (simp add: sameShape_def)

lemma sameShape_trans: "sameShape a b \<Longrightarrow> sameShape b c \<Longrightarrow> sameShape a c"
  by (simp add: sameShape_def)

lemma forEachM_rel:
  assumes refl: "\<And>s. R s s"
    and trans: "\<And>a b c. R a b \<Longrightarrow> R b c \<Longrightarrow> R a c"
    and step: "\<And>x s s'. x \<in> set xs \<Longrightarrow> body x s = Inr s' \<Longrightarrow> R s s'"
    and run: "forEachM xs body s = Inr s'"
  shows "R s s'"
  using step run
proof (induction xs arbitrary: s)
  case Nil
  then show ?case by (simp add: refl)
next
  case (Cons x xs)
  from Cons.prems(2) obtain m where m: "body x s = Inr m" and rest: "forEachM xs body m = Inr s'"
    by (auto simp: bindE_eq_Inr)
  have "R s m" by (rule Cons.prems(1)[OF _ m]) simp
  moreover have "R m s'"
  proof (rule Cons.IH[OF _ rest])
    fix y t t' assume "y \<in> set xs" "body y t = Inr t'"
    then show "R t t'" using Cons.prems(1)[of y t t'] by simp
  qed
  ultimately show ?case by (rule trans)
qed

lemma forEachM_sameShape:
  assumes "\<And>x s s'. x \<in> set xs \<Longrightarrow> body x s = Inr s' \<Longrightarrow> sameShape s s'"
    and "forEachM xs body s = Inr s'"
  shows "sameShape s s'"
proof (rule forEachM_rel[where R = sameShape and body = body and xs = xs])
  show "\<And>a b c. sameShape a b \<Longrightarrow> sameShape b c \<Longrightarrow> sameShape a c"
    by (rule sameShape_trans)
qed (use assms in auto)

lemma writeCell_lengths:
  assumes "writeCell g x y b = Inr g'"
  shows "map length g' = map length g"
proof -
  from assms have y: "nat y < length g" and g': "g' = g[nat y := (g ! nat y)[nat x := b]]"
    by (auto simp: writeCell_def split: if_splits)
  have "map length g' = (map length g)[nat y := map length g ! nat y]"
    using y by (simp add: g' map_update)
  then show ?thesis by simp
qed

lemma setFunctionModule_shape: "setFunctionModule this x y d = Inr this' \<Longrightarrow> sameShape this this'"
  by (auto simp: setFunctionModule_def bindE_eq_Inr sameShape_def dest: writeCell_lengths)

lemma forEachM2_sameShape:
  assumes "\<And>x y s s'. body x y s = Inr s' \<Longrightarrow> sameShape s s'"
    and "forEachM xs (\<lambda>x. forEachM ys (body x)) s = Inr s'"
  shows "sameShape s s'"
  by (rule forEachM_sameShape[OF _ assms(2)]) (erule forEachM_sameShape[rotated], erule assms(1))

lemma drawFinderPattern_shape:
  "drawFinderPattern this x y = Inr this' \<Longrightarrow> sameShape this this'"
  unfolding drawFinderPattern_def
  by (erule forEachM2_sameShape[rotated])
     (auto simp: Let_def split: if_splits dest: setFunctionModule_shape)

lemma drawAlignmentPattern_shape:
  "drawAlignmentPattern this x y = Inr this' \<Longrightarrow> sameShape this this'"
  unfolding drawAlignmentPattern_def
  by (erule forEachM2_sameShape[rotated]) (erule setFunctionModule_shape)

lemma forEachM_setFunctionModule_shape:
  "forEachM xs (\<lambda>i this. setFunctionModule this (fx i this) (fy i this) (fd i)) this = Inr this'
   \<Longrightarrow> sameShape this this'"
  by (erule forEachM_sameShape[rotated]) (erule setFunctionModule_shape)

lemma drawFormatBits_shape:
  assumes "drawFormatBits this msk = Inr this'"
  shows "sameShape this this'"
proof -
  from assms obtain bits t1 t2 t3 t4 t5 t6 t7 where
    "forEachM [0..5] (\<lambda>i this. setFunctionModule this 8 i (getBit bits i)) this = Inr t1"
    "setFunctionModule t1 8 7 (getBit bits 6) = Inr t2"
    "setFunctionModule t2 8 8 (getBit bits 7) = Inr t3"
    "setFunctionModule t3 7 8 (getBit bits 8) = Inr t4"
    "forEachM [9..14] (\<lambda>i this. setFunctionModule this (14 - i) 8 (getBit bits i)) t4 = Inr t5"
    "forEachM [0..7] (\<lambda>i this. setFunctionModule this (size this - 1 - i) 8 (getBit bits i)) t5 = Inr t6"
    "forEachM [8..14] (\<lambda>i this. setFunctionModule this 8 (size this - 15 + i) (getBit bits i)) t6 = Inr t7"
    "setFunctionModule t7 8 (size t7 - 8) True = Inr this'"
    unfolding drawFormatBits_def bindE_eq_Inr by blast
  then have "sameShape this t1" "sameShape t1 t2" "sameShape t2 t3" "sameShape t3 t4"
    "sameShape t4 t5" "sameShape t5 t6" "sameShape t6 t7" "sameShape t7 this'"
    by (erule_tac forEachM_setFunctionModule_shape setFunctionModule_shape)+
  then show ?thesis by (simp add: sameShape_def)
qed

lemma drawVersion_shape:
  assumes "drawVersion this = Inr this'"
  shows "sameShape this this'"
proof (cases "version this < 7")
  case True
  with assms show ?thesis by (simp add: drawVersion_def)
next
  case False
  with assms obtain bits where
    run: "forEachM [0..17] (\<lambda>i this.
            let color = getBit bits i; a = size this - 11 + i mod 3; b = i div 3
            in bindE (setFunctionModule this a b color) (\<lambda>this.
               setFunctionModule this b a color)) this = Inr this'"
    by (auto simp: drawVersion_def bindE_eq_Inr)
  show ?thesis
    by (rule forEachM_sameShape[OF _ run])
       (auto simp: Let_def bindE_eq_Inr dest!: setFunctionModule_shape intro: sameShape_trans)
qed

lemma drawAlignmentAt_shape:
  "drawAlignmentAt pos i j this = Inr this' \<Longrightarrow> sameShape this this'"
  by (auto simp: drawAlignmentAt_def Let_def split: if_splits dest: drawAlignmentPattern_shape)

lemma drawFunctionPatterns_shape:
  assumes "drawFunctionPatterns this = Inr this'"
  shows "sameShape this this'"
proof -
  from assms obtain t1 t2 t3 t4 pos t5 t6 where
    r1: "forEachM [0..size this - 1] (\<lambda>i this.
              bindE (setFunctionModule this 6 i (i mod 2 = 0)) (\<lambda>this.
              setFunctionModule this i 6 (i mod 2 = 0))) this = Inr t1"
    and r2: "drawFinderPattern t1 3 3 = Inr t2"
    and r3: "drawFinderPattern t2 (size t2 - 4) 3 = Inr t3"
    and r4: "drawFinderPattern t3 3 (size t3 - 4) = Inr t4"
    and r5: "forEachM [0..int (length pos) - 1] (\<lambda>i.
                 forEachM [0..int (length pos) - 1] (\<lambda>j. drawAlignmentAt pos i j)) t4 = Inr t5"
    and r6: "drawFormatBits t5 0 = Inr t6"
    and r7: "drawVersion t6 = Inr this'"
    unfolding drawFunctionPatterns_def bindE_eq_Inr Let_def by blast
  have "sameShape this t1"
    by (rule forEachM_sameShape[OF _ r1])
       (auto simp: bindE_eq_Inr dest!: setFunctionModule_shape intro: sameShape_trans)
  moreover have "sameShape t4 t5"
    by (rule forEachM2_sameShape[OF _ r5]) (erule drawAlignmentAt_shape)
  moreover note drawFinderPattern_shape[OF r2] drawFinderPattern_shape[OF r3]
    drawFinderPattern_shape[OF r4] drawFormatBits_shape[OF r6] drawVersion_shape[OF r7]
  ultimately show ?thesis by (simp add: sameShape_def)
qed


lemma drawCodewordsCell_shape:
  "drawCodewordsCell data right vert j st = Inr st' \<Longrightarrow> sameShape (fst st) (fst st')"
  by (cases st)
     (auto simp: drawCodewordsCell_def Let_def bindE_eq_Inr sameShape_def
           split: if_splits dest: writeCell_lengths)

lemma forEachM2_fst_sameShape:
  assumes "\<And>x y s s'. body x y s = Inr s' \<Longrightarrow> sameShape (fst s) (fst s')"
    and "forEachM xs (\<lambda>x. forEachM ys (body x)) s = Inr s'"
  shows "sameShape (fst s) (fst s')"
proof (rule forEachM_rel[where R = "\<lambda>a b. sameShape (fst a) (fst b)", OF _ _ _ assms(2)])
  fix x t t' assume "forEachM ys (body x) t = Inr t'"
  then show "sameShape (fst t) (fst t')"
    by (rule forEachM_rel[where R = "\<lambda>a b. sameShape (fst a) (fst b)", rotated -1])
       (auto intro: sameShape_trans assms(1))
qed (auto intro: sameShape_trans)

lemma drawCodewordsLoop_shape:
  "drawCodewordsLoop data right st = Inr st' \<Longrightarrow> sameShape (fst st) (fst st')"
proof (induction data right st rule: drawCodewordsLoop.induct)
  case (1 data right st)
  show ?case
  proof (cases "right \<ge> 1")
    case False
    with "1.prems" show ?thesis by (simp add: drawCodewordsLoop.simps[of data right st])
  next
    case True
    define r where "r = (if right = 6 then 5 else right)"
    from True "1.prems" obtain m where
      m: "forEachM [0..size (fst st) - 1] (\<lambda>vert.
            forEachM [0..1] (\<lambda>j. drawCodewordsCell data r vert j)) st = Inr m"
      and rest: "drawCodewordsLoop data (r - 2) m = Inr st'"
      by (auto simp: drawCodewordsLoop.simps[of data right st] bindE_eq_Inr r_def Let_def)
    have "sameShape (fst st) (fst m)"
      by (rule forEachM2_fst_sameShape[OF _ m]) (erule drawCodewordsCell_shape)
    moreover have "sameShape (fst m) (fst st')"
      using "1.IH"[OF True r_def m rest] .
    ultimately show ?thesis by (rule sameShape_trans)
  qed
qed


lemma applyMaskCell_shape: "applyMaskCell msk y x this = Inr this' \<Longrightarrow> sameShape this this'"
  by (auto simp: applyMaskCell_def bindE_eq_Inr sameShape_def split: if_splits
           dest: writeCell_lengths)

lemma applyMask_shape: "applyMask this msk = Inr this' \<Longrightarrow> sameShape this this'"
  unfolding applyMask_def
  by (simp split: if_splits) (erule forEachM2_sameShape[rotated], erule applyMaskCell_shape)

lemma autoMaskStep_shape:
  assumes "autoMaskStep i st = Inr st'"
  shows "sameShape (fst st) (fst st')"
proof -
  obtain this msk minPenalty where st: "st = (this, msk, minPenalty)" by (cases st) auto
  from assms obtain t1 t2 penalty t3 where
    "applyMask this i = Inr t1" "drawFormatBits t1 i = Inr t2" "applyMask t2 i = Inr t3"
    "fst st' = t3"
    by (auto simp: autoMaskStep_def st bindE_eq_Inr Let_def split: if_splits prod.splits)
  then show ?thesis
    using applyMask_shape drawFormatBits_shape by (auto simp: st sameShape_def)
qed

definition squareGrid :: "int \<Rightarrow> bool list list \<Rightarrow> bool" where
  "squareGrid n g \<longleftrightarrow> map length g = replicate (nat n) (nat n)"

lemma chooseMask_shape:
  assumes "chooseMask this msk = Inr (this', m)"
  shows "sameShape this this'"
proof (cases "msk = -1")
  case True
  with assms obtain p where "forEachM [0..7] autoMaskStep (this, msk, 1000000000) = Inr (this', m, p)"
    by (auto simp: chooseMask_def bindE_eq_Inr split: prod.splits)
  then have "sameShape (fst (this, msk, 1000000000 :: int)) (fst (this', m, p))"
    by (rule forEachM_rel[where R = "\<lambda>a b. sameShape (fst a) (fst b)", rotated -1])
       (auto intro: sameShape_trans dest: autoMaskStep_shape)
  then show ?thesis by simp
next
  case False
  with assms show ?thesis by (simp add: chooseMask_def)
qed

lemma finishMask_result:
  assumes "finishMask this msk = Inr q"
  shows "version q = version this" "errorCorrectionLevel q = errorCorrectionLevel this"
    "size q = size this" "mask q = msk" "0 \<le> msk \<and> msk \<le> 7"
    "map length (modules q) = map length (modules this)" "isFunction q = []"
proof -
  from assms have m: "0 \<le> msk \<and> msk \<le> 7"
    by (auto simp: finishMask_def assert_def split: if_splits)
  with assms obtain t1 t2 where r1: "applyMask (this\<lparr>mask := msk\<rparr>) msk = Inr t1"
    and r2: "drawFormatBits t1 msk = Inr t2" and q: "q = t2\<lparr>isFunction := []\<rparr>"
    by (auto simp: finishMask_def assert_def Let_def bindE_eq_Inr)
  note s = applyMask_shape[OF r1] drawFormatBits_shape[OF r2]
  show "version q = version this" "errorCorrectionLevel q = errorCorrectionLevel this"
    "size q = size this" "mask q = msk" "0 \<le> msk \<and> msk \<le> 7"
    "map length (modules q) = map length (modules this)" "isFunction q = []"
    using s m by (simp_all add: q sameShape_def)
qed

lemma drawCodewords_shape:
  assumes "drawCodewords this data = Inr this'"
  shows "sameShape this this'"
proof -
  from assms obtain st where "drawCodewordsLoop data (size this - 1) (this, 0) = Inr st"
    and "this' = fst st"
    by (auto simp: drawCodewords_def bindE_eq_Inr split: if_splits)
  then show ?thesis using drawCodewordsLoop_shape[of data "size this - 1" "(this, 0)" st] by simp
qed

lemma newQrCode_result:
  assumes "newQrCode ver ecl dataCodewords msk = Inr q"
  shows "version q = ver" and "errorCorrectionLevel q = ecl" and "size q = ver * 4 + 17"
    and "0 \<le> mask q \<and> mask q \<le> 7" and "squareGrid (size q) (modules q)"
    and "1 \<le> ver \<and> ver \<le> 40" and "isFunction q = []"
proof -
  from assms have ver: "1 \<le> ver \<and> ver \<le> 40"
    by (auto simp: newQrCode_def MIN_VERSION_def MAX_VERSION_def split: if_splits)
  from assms obtain t1 cw t2 t3 m where
    r1: "drawFunctionPatterns (initialQrCode ver ecl msk) = Inr t1"
    and r2: "drawCodewords t1 cw = Inr t2"
    and r3: "chooseMask t2 msk = Inr (t3, m)"
    and r4: "finishMask t3 m = Inr q"
    by (auto simp: newQrCode_def bindE_eq_Inr split: if_splits prod.splits)
  note s = drawFunctionPatterns_shape[OF r1] drawCodewords_shape[OF r2] chooseMask_shape[OF r3]
    finishMask_result[OF r4]
  show "version q = ver" "errorCorrectionLevel q = ecl" "size q = ver * 4 + 17"
    "0 \<le> mask q \<and> mask q \<le> 7" "squareGrid (size q) (modules q)" "1 \<le> ver \<and> ver \<le> 40"
    "isFunction q = []"
    using s ver by (simp_all add: sameShape_def initialQrCode_def squareGrid_def Let_def)
qed

section \<open>The choice of the version\<close>

lemma numCharCountBits_valid:
  assumes "1 \<le> v" "v \<le> 40"
  shows "numCharCountBits m v = Inr (numBitsCharCount m ! nat ((v + 7) div 17))"
proof -
  have "0 \<le> (v + 7) div 17" "(v + 7) div 17 < 3" using assms by auto
  then show ?thesis by (simp add: numCharCountBits_def Let_def)
qed

lemma getTotalBitsLoop_total:
  assumes "1 \<le> v" "v \<le> 40"
  shows "\<exists>r. getTotalBitsLoop segs v acc = Inr r"
  by (induction segs arbitrary: acc) (auto simp: numCharCountBits_valid[OF assms])

lemma getTotalBits_total:
  assumes "1 \<le> v" "v \<le> 40"
  shows "\<exists>r. getTotalBits segs v = Inr r"
  unfolding getTotalBits_def by (rule getTotalBitsLoop_total[OF assms])

text \<open>The segments fit at version \<open>v\<close> and level \<open>ecl\<close>:
  \<open>getTotalBits(segs, v) <= 8 * getNumDataCodewords(v, ecl)\<close>.\<close>

definition fitsAt :: "QrSegment list \<Rightarrow> QrEcc \<Rightarrow> int \<Rightarrow> bool" where
  "fitsAt segs ecl v =
     (case getTotalBits segs v of
        Inl e \<Rightarrow> False
      | Inr used \<Rightarrow>
          (case getNumDataCodewords v ecl of
             Inl e \<Rightarrow> False
           | Inr n \<Rightarrow> number_le used (8 * n)))"

lemma findVersion_step:
  assumes "1 \<le> ver" "ver \<le> 40"
  shows "findVersion segs ecl maxV ver =
      (if fitsAt segs ecl ver
       then Inr (ver, (case getTotalBits segs ver of Inr (Finite u) \<Rightarrow> u | _ \<Rightarrow> 0))
       else if ver \<ge> maxV then Inl (RangeError ''Data too long'')
       else findVersion segs ecl maxV (ver + 1))"
proof -
  obtain r where r: "getTotalBits segs ver = Inr r" using getTotalBits_total[OF assms] by blast
  show ?thesis
    by (subst findVersion.simps)
       (cases r; simp add: getNumDataCodewords_valid[OF assms] r fitsAt_def mult.commute)
qed

lemma findVersion_none:
  assumes "1 \<le> ver" "ver \<le> maxV" "maxV \<le> 40"
    and "\<forall>v. ver \<le> v \<and> v \<le> maxV \<longrightarrow> \<not> fitsAt segs ecl v"
  shows "findVersion segs ecl maxV ver = Inl (RangeError ''Data too long'')"
  using assms
proof (induction "nat (maxV - ver)" arbitrary: ver)
  case 0
  then have "ver = maxV" by simp
  with 0 show ?case by (subst findVersion_step) auto
next
  case (Suc k)
  then have "findVersion segs ecl maxV (ver + 1) = Inl (RangeError ''Data too long'')"
    by (intro Suc.hyps(1)) auto
  with Suc.prems Suc.hyps(2) show ?case by (subst findVersion_step) auto
qed

lemma findVersion_least:
  assumes "1 \<le> ver" "ver \<le> v" "v \<le> maxV" "maxV \<le> 40"
    and "fitsAt segs ecl v"
    and "\<forall>w. ver \<le> w \<and> w < v \<longrightarrow> \<not> fitsAt segs ecl w"
  shows "findVersion segs ecl maxV ver =
           Inr (v, (case getTotalBits segs v of Inr (Finite u) \<Rightarrow> u | _ \<Rightarrow> 0))"
  using assms
proof (induction "nat (v - ver)" arbitrary: ver)
  case 0
  then have "ver = v" by simp
  with 0 show ?case by (subst findVersion_step) auto
next
  case (Suc k)
  then have "findVersion segs ecl maxV (ver + 1) =
           Inr (v, (case getTotalBits segs v of Inr (Finite u) \<Rightarrow> u | _ \<Rightarrow> 0))"
    by (intro Suc.hyps(1)) auto
  moreover have "\<not> fitsAt segs ecl ver" "\<not> ver \<ge> maxV" using Suc.prems Suc.hyps(2) by auto
  ultimately show ?case using Suc.prems by (subst findVersion_step) auto
qed


lemma findVersion_result:
  assumes "findVersion segs ecl maxV ver = Inr (v, used)" "1 \<le> ver" "ver \<le> maxV" "maxV \<le> 40"
  shows "ver \<le> v \<and> v \<le> maxV \<and> fitsAt segs ecl v \<and> getTotalBits segs v = Inr (Finite used) \<and>
         (\<forall>w. ver \<le> w \<and> w < v \<longrightarrow> \<not> fitsAt segs ecl w)"
  using assms
proof (induction "nat (maxV - ver)" arbitrary: ver)
  case 0
  then have eq: "ver = maxV" by simp
  have "fitsAt segs ecl ver \<and> ver = v \<and> (case getTotalBits segs ver of Inr (Finite u) \<Rightarrow> u | _ \<Rightarrow> 0) = used"
    using "0.prems" eq findVersion_step[of ver segs ecl maxV] by (auto split: if_splits)
  with eq "0.prems" show ?case
    by (auto simp: fitsAt_def split: sum.splits number.splits)
next
  case (Suc k)
  show ?case
  proof (cases "fitsAt segs ecl ver")
    case True
    then have "ver = v \<and> (case getTotalBits segs ver of Inr (Finite u) \<Rightarrow> u | _ \<Rightarrow> 0) = used"
      using Suc.prems findVersion_step[of ver segs ecl maxV] by (auto split: if_splits)
    with True Suc.prems show ?thesis
      by (auto simp: fitsAt_def split: sum.splits number.splits)
  next
    case False
    then have next1: "findVersion segs ecl maxV (ver + 1) = Inr (v, used)" and lt: "ver < maxV"
      using Suc.prems findVersion_step[of ver segs ecl maxV] by (auto split: if_splits)
    have "ver + 1 \<le> v \<and> v \<le> maxV \<and> fitsAt segs ecl v \<and> getTotalBits segs v = Inr (Finite used) \<and>
         (\<forall>w. ver + 1 \<le> w \<and> w < v \<longrightarrow> \<not> fitsAt segs ecl w)"
      using Suc.hyps(2) Suc.prems lt by (intro Suc.hyps(1)[OF _ next1]) auto
    moreover have "\<And>w. ver \<le> w \<Longrightarrow> w = ver \<or> ver + 1 \<le> w" by auto
    ultimately show ?thesis using False by (smt (verit))
  qed
qed

lemma bindE_InrE:
  assumes "bindE m f = Inr y"
  obtains x where "m = Inr x" and "f x = Inr y"
  using assms by (auto simp: bindE_eq_Inr)

lemma encodeSegments_valid:
  assumes "1 \<le> minV" "minV \<le> maxV" "maxV \<le> 40" "-1 \<le> msk" "msk \<le> 7"
  shows "encodeSegments segs ecl minV maxV msk boost =
           bindE (findVersion segs ecl maxV minV) (\<lambda>found.
           case found of (ver, dataUsedBits) \<Rightarrow>
           bindE (boostLoop [MEDIUM, QUARTILE, HIGH] boost dataUsedBits ver ecl) (\<lambda>ecl.
           bindE (assembleDataCodewords segs ver ecl dataUsedBits) (\<lambda>dataCodewords.
           newQrCode ver ecl dataCodewords msk)))"
  using assms by (simp add: encodeSegments_def MIN_VERSION_def MAX_VERSION_def)

lemma encodeSegments_Inr:
  assumes "encodeSegments segs ecl minV maxV msk boost = Inr q"
    and "1 \<le> minV" "minV \<le> maxV" "maxV \<le> 40" "-1 \<le> msk" "msk \<le> 7"
  obtains v used ecl' d where
    "findVersion segs ecl maxV minV = Inr (v, used)"
    "boostLoop [MEDIUM, QUARTILE, HIGH] boost used v ecl = Inr ecl'"
    "assembleDataCodewords segs v ecl' used = Inr d"
    "newQrCode v ecl' d msk = Inr q"
proof -
  note run = assms(1)[unfolded encodeSegments_valid[OF assms(2-)]]
  from run obtain found where f: "findVersion segs ecl maxV minV = Inr found"
    and r1: "(case found of (ver, dataUsedBits) \<Rightarrow>
           bindE (boostLoop [MEDIUM, QUARTILE, HIGH] boost dataUsedBits ver ecl) (\<lambda>ecl.
           bindE (assembleDataCodewords segs ver ecl dataUsedBits) (\<lambda>dataCodewords.
           newQrCode ver ecl dataCodewords msk))) = Inr q"
    by (rule bindE_InrE)
  obtain v used where found: "found = (v, used)" by (cases found) auto
  from r1 obtain ecl' where b: "boostLoop [MEDIUM, QUARTILE, HIGH] boost used v ecl = Inr ecl'"
    and r2: "bindE (assembleDataCodewords segs v ecl' used) (\<lambda>dataCodewords.
           newQrCode v ecl' dataCodewords msk) = Inr q"
    unfolding found prod.case by (rule bindE_InrE)
  from r2 obtain d where "assembleDataCodewords segs v ecl' used = Inr d"
    "newQrCode v ecl' d msk = Inr q"
    by (rule bindE_InrE)
  with f b that show thesis by (simp add: found)
qed


definition bytes20 :: QrSegment where
  "bytes20 = \<lparr>mode = BYTE, numChars = 20, bitData = replicate 160 0\<rparr>"

section \<open>The boost of the error correction level\<close>

text \<open>The used bits still fit at the candidate level.\<close>

definition stillFits :: "int \<Rightarrow> int \<Rightarrow> QrEcc \<Rightarrow> bool" where
  "stillFits used v candidate =
     (case getNumDataCodewords v candidate of Inl e \<Rightarrow> False | Inr n \<Rightarrow> used \<le> n * 8)"

definition adopt :: "int \<Rightarrow> int \<Rightarrow> QrEcc \<Rightarrow> QrEcc \<Rightarrow> QrEcc" where
  "adopt used v candidate ecl = (if stillFits used v candidate then candidate else ecl)"

lemma boostLoop_valid:
  assumes "1 \<le> v" "v \<le> 40"
  shows "boostLoop [MEDIUM, QUARTILE, HIGH] True used v ecl =
           Inr (adopt used v HIGH (adopt used v QUARTILE (adopt used v MEDIUM ecl)))"
  by (simp add: getNumDataCodewords_valid[OF assms] adopt_def stillFits_def)

definition capacityDecreases :: "int \<Rightarrow> bool" where
  "capacityDecreases v =
     (dataCodewordsTable v MEDIUM \<le> dataCodewordsTable v LOW \<and>
      dataCodewordsTable v QUARTILE \<le> dataCodewordsTable v MEDIUM \<and>
      dataCodewordsTable v HIGH \<le> dataCodewordsTable v QUARTILE)"

lemma capacityDecreases_all: "list_all capacityDecreases [1..40]"
  by code_simp

lemma capacity_antimono:
  assumes "1 \<le> v" "v \<le> 40" "ordinal a \<le> ordinal b"
  shows "dataCodewordsTable v b \<le> dataCodewordsTable v a"
proof -
  have "capacityDecreases v"
    using capacityDecreases_all version_in_range[OF assms(1,2)] by (simp add: list_all_iff)
  with assms(3) show ?thesis by (cases a; cases b) (auto simp: capacityDecreases_def)
qed

lemma adopt_chain_ordinal:
  assumes "1 \<le> v" "v \<le> 40" "stillFits used v ecl"
  shows "ordinal ecl \<le> ordinal (adopt used v HIGH (adopt used v QUARTILE (adopt used v MEDIUM ecl)))"
proof -
  have fits: "stillFits used v c = (used \<le> dataCodewordsTable v c * 8)" for c
    by (simp add: stillFits_def getNumDataCodewords_valid[OF assms(1,2)])
  have "stillFits used v c" if "ordinal c \<le> ordinal ecl" for c
    using capacity_antimono[OF assms(1,2) that] assms(3) by (simp add: fits)
  then have "stillFits used v LOW \<or> ecl \<noteq> LOW" "stillFits used v MEDIUM \<or> ordinal ecl < 1"
    "stillFits used v QUARTILE \<or> ordinal ecl < 2" "stillFits used v HIGH \<or> ordinal ecl < 3"
    by (cases ecl; force)+
  then show ?thesis
    by (cases ecl) (auto simp: adopt_def)
qed

definition bytes5 :: QrSegment where
  "bytes5 = \<lparr>mode = BYTE, numChars = 5, bitData = replicate 40 0\<rparr>"

section \<open>Bits of small numbers\<close>

lemma toInt32_small: "0 \<le> x \<Longrightarrow> x < 2 ^ 31 \<Longrightarrow> toInt32 x = x"
  by (simp add: toInt32_def signed_take_bit_int_eq_self)

lemma toUint32_small: "0 \<le> x \<Longrightarrow> x < 2 ^ 32 \<Longrightarrow> toUint32 x = x"
  by (simp add: toUint32_def take_bit_int_eq_self)

lemma js_ushr_small:
  assumes "0 \<le> x" "x < 2 ^ 32" "n < 32"
  shows "js_ushr x (int n) = x div 2 ^ n"
  using assms by (simp add: js_ushr_def toUint32_small drop_bit_eq_div)

lemma js_and_one: "0 \<le> x \<Longrightarrow> js_and x 1 = x mod 2"
proof -
  assume "0 \<le> x"
  have "x AND 1 = x mod 2" by (simp add: and_one_eq)
  moreover have "0 \<le> x mod 2" "x mod 2 < 2 ^ 31" by auto
  ultimately show ?thesis by (simp add: js_and_def toInt32_small)
qed

text \<open>The \<open>n\<close> low bits of \<open>v\<close>, most significant first.\<close>

definition binary :: "nat \<Rightarrow> int \<Rightarrow> int list" where
  "binary n v = map (\<lambda>i. (v div 2 ^ i) mod 2) (rev [0..<n])"

text \<open>The number a bit string denotes, most significant bit first.\<close>

definition bitsValue :: "int list \<Rightarrow> int" where
  "bitsValue bs = foldl (\<lambda>acc b. 2 * acc + b) 0 bs"

lemma length_binary [simp]: "length (binary n v) = n"
  by (simp add: binary_def)

lemma binary_Suc: "binary (Suc n) v = (v div 2 ^ n) mod 2 # binary n v"
  by (simp add: binary_def)

lemma binary_bits: "b \<in> set (binary n v) \<Longrightarrow> b = 0 \<or> b = 1"
  by (auto simp: binary_def)

lemma foldl_bits_binary:
  "foldl (\<lambda>acc b. 2 * acc + b) a (binary n v) = a * 2 ^ n + v mod 2 ^ n"
proof (induction n arbitrary: a)
  case 0
  then show ?case by (simp add: binary_def)
next
  case (Suc n)
  have h: "v mod 2 ^ Suc n = (v div 2 ^ n) mod 2 * 2 ^ n + v mod 2 ^ n"
    using zmod_zmult2_eq[of 2 v "2 ^ n"] by (simp add: mult.commute)
  have "foldl (\<lambda>acc b. 2 * acc + b) a (binary (Suc n) v) =
        foldl (\<lambda>acc b. 2 * acc + b) (2 * a + (v div 2 ^ n) mod 2) (binary n v)"
    by (simp add: binary_Suc)
  also have "\<dots> = (2 * a + (v div 2 ^ n) mod 2) * 2 ^ n + v mod 2 ^ n"
    by (rule Suc.IH)
  also have "\<dots> = a * 2 ^ Suc n + v mod 2 ^ Suc n"
    unfolding h by (simp add: algebra_simps)
  finally show ?case .
qed

lemma bitsValue_binary: "0 \<le> v \<Longrightarrow> v < 2 ^ n \<Longrightarrow> bitsValue (binary n v) = v"
  by (simp add: bitsValue_def foldl_bits_binary)

lemma appendBitsLoop_binary:
  assumes "0 \<le> v" "v < 2 ^ 32" "n \<le> 32"
  shows "appendBitsLoop v n bb = bb @ binary n v"
  using assms(3)
proof (induction n arbitrary: bb)
  case 0
  then show ?case by (simp add: binary_def)
next
  case (Suc n)
  have "0 \<le> v div 2 ^ n" using assms(1) by (simp add: pos_imp_zdiv_nonneg_iff)
  then have "js_and (js_ushr v (int n)) 1 = (v div 2 ^ n) mod 2"
    using Suc.prems assms by (simp add: js_ushr_small js_and_one)
  with Suc show ?case by (simp add: binary_Suc)
qed

lemma appendBits_small:
  assumes "0 \<le> len" "len \<le> 31" "0 \<le> v" "v < 2 ^ nat len"
  shows "appendBits v len bb = Inr (bb @ binary (nat len) v)"
proof -
  have "(2::int) ^ nat len \<le> 2 ^ 31" using assms(2) by (intro power_increasing) auto
  then have v32: "v < 2 ^ 32" using assms(4) by simp
  have "js_ushr v len = v div 2 ^ nat len"
    using js_ushr_small[OF assms(3) v32, of "nat len"] assms(1,2) by simp
  then have "js_ushr v len = 0" using assms(3,4) by simp
  then show ?thesis
    using assms(1,2) appendBitsLoop_binary[OF assms(3) v32, of "nat len" bb]
    by (simp add: appendBits_def)
qed


section \<open>makeEci\<close>

lemma js_shl_1_7: "js_shl 1 7 = 128"
  by code_simp

lemma js_shl_1_14: "js_shl 1 14 = 16384"
  by code_simp

text \<open>
  Claim C6.  For every integer \<open>v\<close>: \<open>makeEci v\<close> throws a \<open>RangeError\<close> when \<open>v < 0\<close> or
  \<open>v \<ge> 10^6\<close>; for \<open>0 \<le> v < 128\<close> the data are the 8 bits of \<open>v\<close>; for \<open>128 \<le> v < 2^14\<close> they
  are the prefix \<open>10\<close> and the 14 bits of \<open>v\<close> (16 bits); for \<open>2^14 \<le> v < 10^6\<close> they are the
  prefix \<open>110\<close> and the 21 bits of \<open>v\<close> (24 bits).  The bits are written most significant
  first and denote \<open>v\<close>; the segment has mode ECI and \<open>numChars = 0\<close>.
\<close>

theorem C6_makeEci:
  "(v < 0 \<or> v \<ge> 1000000 \<longrightarrow>
      makeEci v = Inl (RangeError ''ECI assignment value out of range'')) \<and>
   (0 \<le> v \<and> v < 128 \<longrightarrow>
      makeEci v = Inr \<lparr>mode = ECI, numChars = 0, bitData = binary 8 v\<rparr> \<and>
      bitsValue (binary 8 v) = v) \<and>
   (128 \<le> v \<and> v < 2 ^ 14 \<longrightarrow>
      makeEci v = Inr \<lparr>mode = ECI, numChars = 0, bitData = [1, 0] @ binary 14 v\<rparr> \<and>
      bitsValue (binary 14 v) = v \<and> length ([1, 0] @ binary 14 v) = 16) \<and>
   (2 ^ 14 \<le> v \<and> v < 1000000 \<longrightarrow>
      makeEci v = Inr \<lparr>mode = ECI, numChars = 0, bitData = [1, 1, 0] @ binary 21 v\<rparr> \<and>
      bitsValue (binary 21 v) = v \<and> length ([1, 1, 0] @ binary 21 v) = 24)"
proof (intro conjI impI)
  assume "v < 0 \<or> v \<ge> 1000000"
  then show "makeEci v = Inl (RangeError ''ECI assignment value out of range'')"
    by (auto simp: makeEci_def js_shl_1_7 js_shl_1_14)
next
  assume v: "0 \<le> v \<and> v < 128"
  then have "appendBits v 8 [] = Inr ([] @ binary (nat 8) v)"
    by (intro appendBits_small) auto
  with v show "makeEci v = Inr \<lparr>mode = ECI, numChars = 0, bitData = binary 8 v\<rparr>"
    by (simp add: makeEci_def js_shl_1_7 newQrSegment_def)
  from v show "bitsValue (binary 8 v) = v" by (intro bitsValue_binary) auto
next
  assume v: "128 \<le> v \<and> v < 2 ^ 14"
  have p: "appendBits 2 2 [] = Inr [1, 0]" by code_simp
  from v have "appendBits v 14 [1, 0] = Inr ([1, 0] @ binary (nat 14) v)"
    by (intro appendBits_small) auto
  with v p show "makeEci v = Inr \<lparr>mode = ECI, numChars = 0, bitData = [1, 0] @ binary 14 v\<rparr>"
    by (simp add: makeEci_def js_shl_1_7 js_shl_1_14 newQrSegment_def)
  from v show "bitsValue (binary 14 v) = v" by (intro bitsValue_binary) auto
  show "length ([1, 0] @ binary 14 v) = 16" by simp
next
  assume v: "2 ^ 14 \<le> v \<and> v < 1000000"
  have p: "appendBits 6 3 [] = Inr [1, 1, 0]" by code_simp
  from v have "appendBits v 21 [1, 1, 0] = Inr ([1, 1, 0] @ binary (nat 21) v)"
    by (intro appendBits_small) auto
  with v p show "makeEci v = Inr \<lparr>mode = ECI, numChars = 0, bitData = [1, 1, 0] @ binary 21 v\<rparr>"
    by (simp add: makeEci_def js_shl_1_7 js_shl_1_14 newQrSegment_def)
  from v show "bitsValue (binary 21 v) = v" by (intro bitsValue_binary) auto
  show "length ([1, 1, 0] @ binary 21 v) = 24" by simp
qed

theorem C6_makeEci_witness:
  "makeEci 1000000 = Inl (RangeError ''ECI assignment value out of range'') \<and>
   makeEci 127 = Inr \<lparr>mode = ECI, numChars = 0, bitData = [0, 1, 1, 1, 1, 1, 1, 1]\<rparr> \<and>
   makeEci 128 = Inr \<lparr>mode = ECI, numChars = 0,
                      bitData = [1, 0, 0, 0, 0, 0, 0, 0, 1, 0, 0, 0, 0, 0, 0, 0]\<rparr> \<and>
   makeEci 16384 = Inr \<lparr>mode = ECI, numChars = 0,
                      bitData = [1, 1, 0, 0, 0, 0, 0, 0, 0, 1, 0, 0, 0, 0, 0, 0, 0, 0, 0, 0, 0, 0, 0, 0]\<rparr>"
proof -
  have b: "binary 8 127 = [0, 1, 1, 1, 1, 1, 1, 1]"
    "binary 14 128 = [0, 0, 0, 0, 0, 0, 1, 0, 0, 0, 0, 0, 0, 0]"
    "binary 21 16384 = [0, 0, 0, 0, 0, 0, 1, 0, 0, 0, 0, 0, 0, 0, 0, 0, 0, 0, 0, 0, 0]"
    by code_simp+
  from C6_makeEci[of 1000000] C6_makeEci[of 127] C6_makeEci[of 128] C6_makeEci[of 16384]
  show ?thesis unfolding b by simp
qed

section \<open>updateParam\<close>

lemma updateParam_provided:
  "argQrEcc arg = Some e \<Longrightarrow> qrEcc (updateParam this arg) = e"
  "argMinVersion arg = Some a \<Longrightarrow> minVersion (updateParam this arg) = a"
  "argMaxVersion arg = Some b \<Longrightarrow> maxVersion (updateParam this arg) = b"
  "argMask arg = Some m \<Longrightarrow> mask' (updateParam this arg) = m"
  "argBoostEcl arg = Some c \<Longrightarrow> boostEcl (updateParam this arg) = c"
  by (simp_all add: updateParam_def destructure_def nullish_def)

lemma updateParam_absent:
  "argQrEcc arg = None \<Longrightarrow> qrEcc (updateParam this arg) = HIGH"
  "argMinVersion arg = None \<Longrightarrow> minVersion (updateParam this arg) = 1"
  "argMaxVersion arg = None \<Longrightarrow> maxVersion (updateParam this arg) = 40"
  "argMask arg = None \<Longrightarrow> mask' (updateParam this arg) = -1"
  "argBoostEcl arg = None \<Longrightarrow> boostEcl (updateParam this arg) = True"
  by (simp_all add: updateParam_def destructure_def nullish_def)

text \<open>A facade holding the level LOW, and an argument object without \<open>qrEcc\<close>.\<close>

definition facadeLow :: MyQrCode where
  "facadeLow = \<lparr>qrEcc = LOW, minVersion = 1, maxVersion = 40, version' = 1, mask' = 7,
     boostEcl = True, dataText = [], dataBinary = [], size' = 0, marix = []\<rparr>"

definition argWithoutEcc :: UpdateParam where
  "argWithoutEcc = \<lparr>argQrEcc = None, argMinVersion = Some 1, argMaxVersion = Some 40,
     argMask = Some 7, argBoostEcl = Some True\<rparr>"

text \<open>
  Claim C9.  \<open>updateParam\<close> assigns every provided field, but a field that is not provided
  does not keep the stored parameter: the default of the destructured parameter is
  assigned.  Here the stored level LOW becomes HIGH though \<open>qrEcc\<close> is not provided.
\<close>

theorem C9_updateParam_absent_field:
  "qrEcc facadeLow = LOW \<and> argQrEcc argWithoutEcc = None \<and>
   qrEcc (updateParam facadeLow argWithoutEcc) = HIGH"
  by (simp add: updateParam_def destructure_def nullish_def facadeLow_def argWithoutEcc_def)

section \<open>Loops over index ranges\<close>

lemma forEachM_append:
  "forEachM (xs @ ys) body s = bindE (forEachM xs body s) (forEachM ys body)"
  by (induction xs arbitrary: s) (auto simp: bindE_def split: sum.splits)

lemma upto_as_upt: "[0..n - 1] = map int [0..<nat n]"
proof (induction "nat n" arbitrary: n)
  case 0
  then show ?case by simp
next
  case (Suc k)
  then have n: "n = int k + 1" by linarith
  have "[0..int k - 1] = map int [0..<nat (int k)]" by (rule Suc.hyps(1)) auto
  moreover have "[0..int k] = [0..int k - 1] @ [int k]" by (simp add: upto_rec2)
  moreover have "nat (int k + 1) = Suc k" by simp
  ultimately show ?case by (simp add: n)
qed

lemma squareGridD:
  assumes "squareGrid n g"
  shows "length g = nat n" and "\<And>y. y < nat n \<Longrightarrow> length (g ! y) = nat n"
proof -
  from assms have eq: "map length g = replicate (nat n) (nat n)" by (simp add: squareGrid_def)
  then show len: "length g = nat n" by (metis length_map length_replicate)
  fix y assume y: "y < nat n"
  then have "map length g ! y = nat n" by (simp add: eq)
  with y len show "length (g ! y) = nat n" by simp
qed

lemma readCell_square:
  assumes "squareGrid n g" "x < nat n" "y < nat n"
  shows "readCell g (int x) (int y) = Inr (g ! y ! x)"
proof -
  from assms(2,3) have "int x < n" "int y < n" by linarith+
  then show ?thesis using assms squareGridD[OF assms(1)] by (simp add: readCell_def)
qed

lemma writeCell_square:
  assumes "squareGrid n g" "x < nat n" "y < nat n"
  shows "writeCell g (int x) (int y) b = Inr (g[y := (g ! y)[x := b]])"
proof -
  from assms(2,3) have "int x < n" "int y < n" by linarith+
  then show ?thesis using assms squareGridD[OF assms(1)] by (simp add: writeCell_def)
qed

lemma squareGrid_update:
  assumes "squareGrid n g" "length r = nat n"
  shows "squareGrid n (g[y := r])"
proof (cases "y < length g")
  case True
  have "map length (g[y := r]) = (map length g)[y := nat n]"
    by (simp add: map_update assms(2))
  also have "\<dots> = map length g"
    using assms(1) True squareGridD[OF assms(1)] by (metis length_map list_update_id nth_map)
  finally show ?thesis using assms(1) by (simp add: squareGrid_def)
next
  case False
  then have "g[y := r] = g" by (simp add: list_update_beyond)
  with assms(1) show ?thesis by simp
qed


section \<open>applyMask\<close>

text \<open>The mask predicates as the specification lists them (section 4.7).\<close>

definition maskPredicate :: "int \<Rightarrow> int \<Rightarrow> int \<Rightarrow> bool" where
  "maskPredicate m x y =
     (if m = 0 then (x + y) mod 2 = 0
      else if m = 1 then y mod 2 = 0
      else if m = 2 then x mod 3 = 0
      else if m = 3 then (x + y) mod 3 = 0
      else if m = 4 then (x div 3 + y div 2) mod 2 = 0
      else if m = 5 then (x * y) mod 2 + (x * y) mod 3 = 0
      else if m = 6 then ((x * y) mod 2 + (x * y) mod 3) mod 2 = 0
      else if m = 7 then ((x + y) mod 2 + (x * y) mod 3) mod 2 = 0
      else False)"

lemma invert_valid: "0 \<le> m \<Longrightarrow> m \<le> 7 \<Longrightarrow> invert m x y = Inr (maskPredicate m x y)"
  by (simp add: invert_def maskPredicate_def)

text \<open>The colour of the module \<open>(x, y)\<close> after mask \<open>m\<close>: flipped when the module is not a
  function module and the predicate holds.\<close>

definition flipped :: "int \<Rightarrow> QrCode \<Rightarrow> nat \<Rightarrow> nat \<Rightarrow> bool" where
  "flipped m q y x =
     (if \<not> isFunction q ! y ! x \<and> maskPredicate m (int x) (int y)
      then \<not> modules q ! y ! x else modules q ! y ! x)"

lemma applyMaskCell_square:
  assumes "squareGrid n (modules q)" "squareGrid n (isFunction q)" "x < nat n" "y < nat n"
    and "0 \<le> m" "m \<le> 7"
  shows "applyMaskCell m (int y) (int x) q =
           Inr (q\<lparr>modules := (modules q)[y := (modules q ! y)[x := flipped m q y x]]\<rparr>)"
proof (cases "\<not> isFunction q ! y ! x \<and> maskPredicate m (int x) (int y)")
  case True
  then show ?thesis
    by (simp add: applyMaskCell_def invert_valid[OF assms(5,6)] flipped_def
        readCell_square[OF assms(1,3,4)] readCell_square[OF assms(2,3,4)]
        writeCell_square[OF assms(1,3,4)])
next
  case False
  then have "flipped m q y x = modules q ! y ! x" by (simp add: flipped_def)
  then have "(modules q)[y := (modules q ! y)[x := flipped m q y x]] = modules q" by simp
  with False show ?thesis
    by (auto simp: applyMaskCell_def invert_valid[OF assms(5,6)]
        readCell_square[OF assms(2,3,4)])
qed

lemma update_prefix:
  assumes "length xs = k" "k < length row"
  shows "(xs @ drop k row)[k := v] = (xs @ [v]) @ drop (Suc k) row"
proof -
  have "drop k row = row ! k # drop (Suc k) row" using assms(2) by (simp add: Cons_nth_drop_Suc)
  then show ?thesis using assms(1) by (simp add: list_update_append)
qed

lemma applyMask_row:
  assumes sq: "squareGrid n (modules q)" "squareGrid n (isFunction q)"
    and y: "y < nat n" and m: "0 \<le> m" "m \<le> 7" and k: "k \<le> nat n"
  shows "forEachM (map int [0..<k]) (applyMaskCell m (int y)) q =
           Inr (q\<lparr>modules := (modules q)[y := map (flipped m q y) [0..<k] @ drop k (modules q ! y)]\<rparr>)"
  using k
proof (induction k)
  case 0
  then show ?case by simp
next
  case (Suc k)
  define row where "row = modules q ! y"
  define M1 where "M1 = (modules q)[y := map (flipped m q y) [0..<k] @ drop k row]"
  define q1 where "q1 = q\<lparr>modules := M1\<rparr>"
  have rowlen: "length row = nat n" and glen: "length (modules q) = nat n"
    using squareGridD[OF sq(1)] y by (simp_all add: row_def)
  have k: "k < nat n" using Suc.prems by simp
  have IH: "forEachM (map int [0..<k]) (applyMaskCell m (int y)) q = Inr q1"
    using Suc by (simp add: q1_def M1_def row_def)
  have len1: "length (map (flipped m q y) [0..<k] @ drop k row) = nat n"
    using k rowlen by simp
  have sq1: "squareGrid n (modules q1)" "squareGrid n (isFunction q1)"
    using sq squareGrid_update[OF sq(1) len1] by (simp_all add: q1_def M1_def)
  have M1y: "M1 ! y = map (flipped m q y) [0..<k] @ drop k row"
    using y glen by (simp add: M1_def)
  have cell: "modules q1 ! y ! k = modules q ! y ! k"
    using k rowlen by (simp add: q1_def M1y nth_append row_def)
  have fl: "flipped m q1 y k = flipped m q y k"
    using cell by (simp add: flipped_def q1_def)
  have "applyMaskCell m (int y) (int k) q1 =
          Inr (q1\<lparr>modules := (modules q1)[y := (modules q1 ! y)[k := flipped m q1 y k]]\<rparr>)"
    by (rule applyMaskCell_square[OF sq1 k y m])
  also have "(modules q1)[y := (modules q1 ! y)[k := flipped m q1 y k]] =
        (modules q)[y := map (flipped m q y) [0..<Suc k] @ drop (Suc k) row]"
  proof -
    have mq1: "modules q1 = M1" by (simp add: q1_def)
    have "M1[y := (M1 ! y)[k := flipped m q y k]] =
          M1[y := map (flipped m q y) [0..<Suc k] @ drop (Suc k) row]"
      using update_prefix[of "map (flipped m q y) [0..<k]" k row "flipped m q y k"] k rowlen
      by (simp add: M1y)
    also have "\<dots> = (modules q)[y := map (flipped m q y) [0..<Suc k] @ drop (Suc k) row]"
      by (simp add: M1_def)
    finally show ?thesis unfolding mq1 fl .
  qed
  finally have "applyMaskCell m (int y) (int k) q1 =
      Inr (q\<lparr>modules := (modules q)[y := map (flipped m q y) [0..<Suc k] @ drop (Suc k) row]\<rparr>)"
    by (simp add: q1_def)
  then show ?case
    by (simp add: forEachM_append IH row_def)
qed


lemma squareGrid_prefix:
  assumes "squareGrid n g" "length rows = k" "k \<le> nat n" "\<forall>r \<in> set rows. length r = nat n"
  shows "squareGrid n (rows @ drop k g)"
proof -
  have "map length rows = replicate (length rows) (nat n)"
    using assms(4) by (induction rows) auto
  moreover have "map length (drop k g) = replicate (nat n - k) (nat n)"
    using assms(1) by (simp add: squareGrid_def drop_map[symmetric])
  ultimately have "map length (rows @ drop k g) = replicate (k + (nat n - k)) (nat n)"
    using assms(2) by (simp add: replicate_add)
  then show ?thesis using assms(3) by (simp add: squareGrid_def)
qed

lemma applyMask_rows:
  assumes sq: "squareGrid n (modules q)" "squareGrid n (isFunction q)"
    and m: "0 \<le> m" "m \<le> 7" and k: "k \<le> nat n"
  shows "forEachM (map int [0..<k]) (\<lambda>y. forEachM [0..n - 1] (applyMaskCell m y)) q =
           Inr (q\<lparr>modules := map (\<lambda>y. map (flipped m q y) [0..<nat n]) [0..<k] @ drop k (modules q)\<rparr>)"
  using k
proof (induction k)
  case 0
  then show ?case by simp
next
  case (Suc k)
  define rows where "rows = map (\<lambda>y. map (flipped m q y) [0..<nat n]) [0..<k]"
  define q1 where "q1 = q\<lparr>modules := rows @ drop k (modules q)\<rparr>"
  have k: "k < nat n" using Suc.prems by simp
  have glen: "length (modules q) = nat n" using squareGridD[OF sq(1)] by simp
  have IH: "forEachM (map int [0..<k]) (\<lambda>y. forEachM [0..n - 1] (applyMaskCell m y)) q = Inr q1"
    using Suc by (simp add: q1_def rows_def)
  have sq1: "squareGrid n (modules q1)" "squareGrid n (isFunction q1)"
    using sq squareGrid_prefix[OF sq(1), of rows k] k by (simp_all add: q1_def rows_def)
  have rowk: "modules q1 ! k = modules q ! k"
    using k glen by (simp add: q1_def rows_def nth_append)
  have fl: "flipped m q1 k = flipped m q k"
    by (rule ext) (simp add: flipped_def rowk, simp add: q1_def)
  have "forEachM [0..n - 1] (applyMaskCell m (int k)) q1 =
        forEachM (map int [0..<nat n]) (applyMaskCell m (int k)) q1"
    by (simp add: upto_as_upt)
  also have "\<dots> = Inr (q1\<lparr>modules := (modules q1)[k :=
        map (flipped m q1 k) [0..<nat n] @ drop (nat n) (modules q1 ! k)]\<rparr>)"
    by (rule applyMask_row[OF sq1 k m]) simp
  also have "drop (nat n) (modules q1 ! k) = []"
    using squareGridD(2)[OF sq1(1) k] by simp
  also have "(modules q1)[k := map (flipped m q1 k) [0..<nat n] @ []] =
        map (\<lambda>y. map (flipped m q y) [0..<nat n]) [0..<Suc k] @ drop (Suc k) (modules q)"
    using update_prefix[of rows k "modules q" "map (flipped m q k) [0..<nat n]"] k glen
    by (simp add: fl) (simp add: q1_def rows_def)
  finally have "forEachM [0..n - 1] (applyMaskCell m (int k)) q1 =
      Inr (q\<lparr>modules := map (\<lambda>y. map (flipped m q y) [0..<nat n]) [0..<Suc k] @
                drop (Suc k) (modules q)\<rparr>)"
    by (simp add: q1_def)
  then show ?case by (simp add: forEachM_append IH)
qed

text \<open>The grid after the mask.\<close>

definition masked :: "int \<Rightarrow> QrCode \<Rightarrow> QrCode" where
  "masked m q =
     q\<lparr>modules := map (\<lambda>y. map (flipped m q y) [0..<nat (size q)]) [0..<nat (size q)]\<rparr>"

lemma applyMask_square:
  assumes "squareGrid (size q) (modules q)" "squareGrid (size q) (isFunction q)"
    and "0 \<le> m" "m \<le> 7"
  shows "applyMask q m = Inr (masked m q)"
proof -
  have "applyMask q m =
      forEachM (map int [0..<nat (size q)]) (\<lambda>y. forEachM [0..size q - 1] (applyMaskCell m y)) q"
    using assms(3,4) by (simp add: applyMask_def upto_as_upt)
  also have "\<dots> = Inr (masked m q)"
    using applyMask_rows[OF assms, of "nat (size q)"] squareGridD(1)[OF assms(1)]
    by (simp add: masked_def)
  finally show ?thesis .
qed

lemma masked_square:
  assumes "squareGrid (size q) (modules q)"
  shows "squareGrid (size (masked m q)) (modules (masked m q))"
proof -
  have "map length (map (\<lambda>y. map (flipped m q y) [0..<nat (size q)]) [0..<nat (size q)]) =
        replicate (nat (size q)) (nat (size q))"
    by (simp add: comp_def map_replicate_const)
  then show ?thesis by (simp add: masked_def squareGrid_def)
qed

lemma masked_cell:
  assumes "x < nat (size q)" "y < nat (size q)"
  shows "modules (masked m q) ! y ! x = flipped m q y x"
  using assms by (simp add: masked_def)

lemma masked_twice:
  assumes "squareGrid (size q) (modules q)"
  shows "masked m (masked m q) = q"
proof -
  let ?n = "nat (size q)"
  have cell: "flipped m (masked m q) y x = modules q ! y ! x" if "x < ?n" "y < ?n" for x y
    using that masked_cell[OF that, of m]
    by (simp add: flipped_def[of m "masked m q"]) (simp add: masked_def flipped_def)
  have "map (\<lambda>y. map (flipped m (masked m q) y) [0..<?n]) [0..<?n] = modules q"
  proof (rule nth_equalityI)
    show "length (map (\<lambda>y. map (flipped m (masked m q) y) [0..<?n]) [0..<?n]) = length (modules q)"
      using squareGridD(1)[OF assms] by simp
  next
    fix y assume "y < length (map (\<lambda>y. map (flipped m (masked m q) y) [0..<?n]) [0..<?n])"
    then have y: "y < ?n" by simp
    have "map (flipped m (masked m q) y) [0..<?n] = modules q ! y"
      using squareGridD(2)[OF assms y] cell y by (intro nth_equalityI) auto
    with y show "map (\<lambda>y. map (flipped m (masked m q) y) [0..<?n]) [0..<?n] ! y = modules q ! y"
      by simp
  qed
  then have "modules (masked m (masked m q)) = modules q"
    by (simp add: masked_def[of m "masked m q"]) (simp add: masked_def)
  then show ?thesis by (simp add: masked_def)
qed


text \<open>
  Claim C4.  For every mask \<open>m\<close> in \<open>[0, 7]\<close> and every symbol whose module grid and
  function-marker grid are \<open>size\<close> rows of \<open>size\<close> cells: \<open>applyMask\<close> returns; it leaves the
  function markers as they are and flips exactly the modules that are not function
  modules and whose coordinates satisfy the predicate of mask \<open>m\<close>; and applying it a
  second time gives the original symbol back.
\<close>

theorem C4_applyMask_involution:
  assumes "squareGrid (size q) (modules q)" and "squareGrid (size q) (isFunction q)"
    and "0 \<le> m" and "m \<le> 7"
  shows "\<exists>q'. applyMask q m = Inr q' \<and> applyMask q' m = Inr q \<and>
              isFunction q' = isFunction q \<and>
              (\<forall>x y. x < nat (size q) \<and> y < nat (size q) \<longrightarrow>
                 modules q' ! y ! x =
                   (if \<not> isFunction q ! y ! x \<and> maskPredicate m (int x) (int y)
                    then \<not> modules q ! y ! x else modules q ! y ! x))"
proof (intro exI conjI allI impI)
  show "applyMask q m = Inr (masked m q)"
    by (rule applyMask_square[OF assms])
  have "applyMask (masked m q) m = Inr (masked m (masked m q))"
    using masked_square[OF assms(1), of m] assms(2-4)
    by (intro applyMask_square) (simp_all add: masked_def)
  then show "applyMask (masked m q) m = Inr q"
    by (simp add: masked_twice[OF assms(1)])
  show "isFunction (masked m q) = isFunction q" by (simp add: masked_def)
  fix x y assume "x < nat (size q) \<and> y < nat (size q)"
  then show "modules (masked m q) ! y ! x =
                   (if \<not> isFunction q ! y ! x \<and> maskPredicate m (int x) (int y)
                    then \<not> modules q ! y ! x else modules q ! y ! x)"
    by (simp add: masked_cell flipped_def)
qed

definition grid3 :: QrCode where
  "grid3 = \<lparr>version = 1, errorCorrectionLevel = LOW, size = 3, mask = 0,
     modules = [[True, False, True], [False, True, False], [False, False, True]],
     isFunction = [[True, False, False], [False, False, False], [False, False, True]]\<rparr>"

theorem C4_applyMask_involution_witness:
  "applyMask grid3 0 =
     Inr (grid3\<lparr>modules := [[True, False, False], [False, False, False], [True, False, True]]\<rparr>) \<and>
   applyMask (grid3\<lparr>modules := [[True, False, False], [False, False, False], [True, False, True]]\<rparr>) 0 =
     Inr grid3"
proof -
  have sq: "squareGrid (size grid3) (modules grid3)" "squareGrid (size grid3) (isFunction grid3)"
    by (simp_all add: squareGrid_def grid3_def numeral_3_eq_3)
  from C4_applyMask_involution[OF sq, of 0]
  obtain q' where q': "applyMask grid3 0 = Inr q'" "applyMask q' 0 = Inr grid3" by auto
  have "applyMask grid3 0 =
     Inr (grid3\<lparr>modules := [[True, False, False], [False, False, False], [True, False, True]]\<rparr>)"
    by code_simp
  with q' show ?thesis by simp
qed

section \<open>getModule\<close>

text \<open>
  Claim C8.  For every pair of integers \<open>(x, y)\<close> outside \<open>[0, size)\<close> in either coordinate,
  \<open>getModule\<close> returns \<open>false\<close> and does not fail; for a symbol whose module grid is
  \<open>size\<close> rows of \<open>size\<close> cells, as every constructed symbol's is (\<open>newQrCode_result\<close>), and
  coordinates in range, it returns the stored module.
\<close>

theorem C8_getModule:
  "(x < 0 \<or> x \<ge> size q \<or> y < 0 \<or> y \<ge> size q \<longrightarrow> getModule q x y = Inr False) \<and>
   (squareGrid (size q) (modules q) \<and> 0 \<le> x \<and> x < size q \<and> 0 \<le> y \<and> y < size q \<longrightarrow>
      getModule q x y = Inr (modules q ! nat y ! nat x))"
proof (intro conjI impI)
  assume "x < 0 \<or> x \<ge> size q \<or> y < 0 \<or> y \<ge> size q"
  then show "getModule q x y = Inr False" by (auto simp: getModule_def)
next
  assume a: "squareGrid (size q) (modules q) \<and> 0 \<le> x \<and> x < size q \<and> 0 \<le> y \<and> y < size q"
  then have "readCell (modules q) (int (nat x)) (int (nat y)) = Inr (modules q ! nat y ! nat x)"
    by (intro readCell_square[of "size q"]) auto
  with a show "getModule q x y = Inr (modules q ! nat y ! nat x)"
    by (simp add: getModule_def)
qed

theorem C8_getModule_witness:
  "getModule grid3 (-1) 0 = Inr False \<and> getModule grid3 0 3 = Inr False \<and>
   getModule grid3 2 0 = Inr True \<and> getModule grid3 1 2 = Inr False"
proof -
  have sq: "squareGrid (size grid3) (modules grid3)"
    by (simp add: squareGrid_def grid3_def numeral_3_eq_3)
  have sz: "size grid3 = 3" by (simp add: grid3_def)
  have c: "modules grid3 ! nat 0 ! nat 2 = True" "modules grid3 ! nat 2 ! nat 1 = False"
    by (simp_all add: grid3_def)
  from C8_getModule[of "-1" grid3 0] C8_getModule[of 0 grid3 3]
    C8_getModule[of 2 grid3 0] C8_getModule[of 1 grid3 2] sq
  show ?thesis unfolding sz c by simp
qed

section \<open>makeSegments: the character classes\<close>

lemma mem_word_list:
  assumes "\<forall>x \<in> set xs. 0 \<le> x \<and> x < 65536"
  shows "(c :: 16 word) \<in> set (map word_of_int xs) \<longleftrightarrow> uint c \<in> set xs"
proof
  assume "c \<in> set (map word_of_int xs)"
  then obtain x where x: "x \<in> set xs" "c = word_of_int x" by auto
  with assms have "uint c = x" by (simp add: uint_word_of_int take_bit_int_eq_self)
  with x show "uint c \<in> set xs" by simp
next
  assume "uint c \<in> set xs"
  moreover have "c = word_of_int (uint c)" by simp
  ultimately have "c \<in> word_of_int ` set xs" by (rule image_eqI[rotated])
  then show "c \<in> set (map word_of_int xs)" by simp
qed

lemma word_range_as_list:
  assumes "0 \<le> lo" "lo \<le> hi" "hi < 65536"
  shows "(word_of_int lo \<le> (c :: 16 word) \<and> c \<le> word_of_int hi) \<longleftrightarrow>
         c \<in> set (map word_of_int [lo..hi])"
proof -
  have "uint (word_of_int lo :: 16 word) = lo" "uint (word_of_int hi :: 16 word) = hi"
    using assms by (simp_all add: uint_word_of_int take_bit_int_eq_self)
  then have "(word_of_int lo \<le> c \<and> c \<le> word_of_int hi) \<longleftrightarrow> uint c \<in> set [lo..hi]"
    by (simp add: word_le_def)
  also have "\<dots> \<longleftrightarrow> c \<in> set (map word_of_int [lo..hi])"
    using assms by (intro mem_word_list[symmetric]) auto
  finally show ?thesis .
qed

lemma digits_list: "map word_of_int [0x30..0x39] = codeUnits ''0123456789''"
  by code_simp

lemma letters_list: "map word_of_int [0x41..0x5A] = codeUnits ''ABCDEFGHIJKLMNOPQRSTUVWXYZ''"
  by code_simp

lemma isDigitUnit_iff: "isDigitUnit c \<longleftrightarrow> c \<in> set (codeUnits ''0123456789'')"
  using word_range_as_list[where lo="0x30" and hi="0x39" and c=c] by (simp add: isDigitUnit_def codeUnits_def)

lemma charset_split:
  "set ALPHANUMERIC_CHARSET =
     set (codeUnits ''ABCDEFGHIJKLMNOPQRSTUVWXYZ'') \<union> set (codeUnits ''0123456789'') \<union>
     set (codeUnits '' $%*+./:-'')"
  by (simp add: ALPHANUMERIC_CHARSET_def codeUnits_def) blast

lemma isAlphanumericUnit_iff: "isAlphanumericUnit c \<longleftrightarrow> c \<in> set ALPHANUMERIC_CHARSET"
  using word_range_as_list[where lo="0x30" and hi="0x39" and c=c]
    word_range_as_list[where lo="0x41" and hi="0x5A" and c=c]
  by (simp add: isAlphanumericUnit_def charset_split) (simp add: codeUnits_def)


section \<open>makeSegments: the numeric and alphanumeric factories return\<close>

lemma digitValue_digit: "isDigitUnit c \<Longrightarrow> 0 \<le> digitValue c \<and> digitValue c < 10"
  by (auto simp: isDigitUnit_def digitValue_def word_le_def)

lemma foldl_digits_bound:
  assumes "list_all (\<lambda>c. 0 \<le> digitValue c \<and> digitValue c < r) s" "0 \<le> acc" "0 < r"
  shows "0 \<le> foldl (\<lambda>acc c. acc * r + digitValue c) acc s \<and>
         foldl (\<lambda>acc c. acc * r + digitValue c) acc s < (acc + 1) * r ^ length s"
  using assms(1,2)
proof (induction s arbitrary: acc)
  case Nil
  then show ?case by simp
next
  case (Cons c s)
  have d: "0 \<le> digitValue c" "digitValue c < r" using Cons.prems(1) by auto
  have acc': "0 \<le> acc * r + digitValue c" using Cons.prems(2) assms(3) d by simp
  have "list_all (\<lambda>c. 0 \<le> digitValue c \<and> digitValue c < r) s" using Cons.prems(1) by simp
  from Cons.IH[OF this acc']
  have ih: "0 \<le> foldl (\<lambda>acc c. acc * r + digitValue c) (acc * r + digitValue c) s"
    "foldl (\<lambda>acc c. acc * r + digitValue c) (acc * r + digitValue c) s
       < (acc * r + digitValue c + 1) * r ^ length s" by auto
  have "acc * r + digitValue c + 1 \<le> (acc + 1) * r" using d by (simp add: algebra_simps)
  then have "(acc * r + digitValue c + 1) * r ^ length s \<le> (acc + 1) * r * r ^ length s"
    using assms(3) by (intro mult_right_mono) auto
  with ih show ?case by (simp add: mult.assoc)
qed

lemma parseInt_digits:
  assumes "s \<noteq> []" "list_all isDigitUnit s"
  shows "\<exists>v. parseInt s 10 = Inr v \<and> 0 \<le> v \<and> v < 10 ^ length s"
proof -
  have all: "list_all (\<lambda>c. 0 \<le> digitValue c \<and> digitValue c < 10) s"
    using assms(2) digitValue_digit by (auto simp: list_all_iff)
  then have "list_all (\<lambda>c. digitValue c < 10) s" by (auto simp: list_all_iff)
  then have "parseInt s 10 = Inr (foldl (\<lambda>acc c. acc * 10 + digitValue c) 0 s)"
    using assms(1) by (simp add: parseInt_def)
  with foldl_digits_bound[OF all, of 0] show ?thesis by simp
qed

lemma makeNumericLoop_total:
  "list_all isDigitUnit rest \<Longrightarrow> \<exists>bb'. makeNumericLoop rest bb = Inr bb'"
proof (induction rest bb rule: makeNumericLoop.induct)
  case (1 rest bb)
  show ?case
  proof (cases "rest = []")
    case True
    then show ?thesis by (simp add: makeNumericLoop.simps)
  next
    case False
    define n where "n = min (length rest) 3"
    have n: "1 \<le> n" "n \<le> 3" "length (take n rest) = n"
      using False by (auto simp: n_def Suc_le_eq)
    have "take n rest \<noteq> []" using n False by auto
    moreover have "list_all isDigitUnit (take n rest)"
      using "1.prems" by (auto simp: list_all_iff dest: in_set_takeD)
    ultimately obtain v where v: "parseInt (take n rest) 10 = Inr v" "0 \<le> v" "v < 10 ^ n"
      using parseInt_digits[of "take n rest"] n(3) by auto
    have "(10::int) ^ n \<le> 2 ^ nat (int n * 3 + 1)"
    proof -
      from n(1,2) have "n = 1 \<or> n = 2 \<or> n = 3" by auto
      then show ?thesis by (elim disjE) (simp_all add: nat_add_distrib nat_mult_distrib)
    qed
    with v have "v < 2 ^ nat (int n * 3 + 1)" by simp
    then have ab: "appendBits v (int n * 3 + 1) bb = Inr (bb @ binary (nat (int n * 3 + 1)) v)"
      using n v by (intro appendBits_small) auto
    have "list_all isDigitUnit (drop n rest)"
      using "1.prems" by (auto simp: list_all_iff dest: in_set_dropD)
    from "1.IH"[OF False n_def v(1) ab this]
    obtain bb' where "makeNumericLoop (drop n rest) (bb @ binary (nat (int n * 3 + 1)) v) = Inr bb'"
      by blast
    then show ?thesis
      using False v(1) ab by (subst makeNumericLoop.simps) (simp add: n_def[symmetric] Let_def)
  qed
qed

lemma makeNumeric_total:
  assumes "isNumeric s"
  shows "\<exists>seg. makeNumeric s = Inr seg \<and> mode seg = NUMERIC \<and> numChars seg = int (length s)"
proof -
  from assms obtain bb where "makeNumericLoop s [] = Inr bb"
    using makeNumericLoop_total[of s "[]"] by (auto simp: isNumeric_def)
  with assms show ?thesis by (simp add: makeNumeric_def newQrSegment_def)
qed


lemma indexOf_bounds: "c \<in> set xs \<Longrightarrow> 0 \<le> indexOf xs c \<and> indexOf xs c < int (length xs)"
  by (induction xs) (auto simp: Let_def)

lemma indexOf_charset:
  assumes "isAlphanumericUnit c"
  shows "0 \<le> indexOf ALPHANUMERIC_CHARSET c" "indexOf ALPHANUMERIC_CHARSET c < 45"
proof -
  have "length ALPHANUMERIC_CHARSET = 45" by (simp add: ALPHANUMERIC_CHARSET_def codeUnits_def)
  with indexOf_bounds[of c ALPHANUMERIC_CHARSET] assms
  show "0 \<le> indexOf ALPHANUMERIC_CHARSET c" "indexOf ALPHANUMERIC_CHARSET c < 45"
    by (simp_all add: isAlphanumericUnit_iff)
qed

lemma makeAlphanumericLoop_total:
  "list_all isAlphanumericUnit str \<Longrightarrow> \<exists>bb'. makeAlphanumericLoop str bb = Inr bb'"
proof (induction str bb rule: makeAlphanumericLoop.induct)
  case (1 a b rest bb)
  define t where "t = indexOf ALPHANUMERIC_CHARSET a * 45 + indexOf ALPHANUMERIC_CHARSET b"
  have ia: "0 \<le> indexOf ALPHANUMERIC_CHARSET a" "indexOf ALPHANUMERIC_CHARSET a \<le> 44"
    and ib: "0 \<le> indexOf ALPHANUMERIC_CHARSET b" "indexOf ALPHANUMERIC_CHARSET b \<le> 44"
    using "1.prems" indexOf_charset[of a] indexOf_charset[of b] by auto
  then have t: "0 \<le> t" "t < 2 ^ nat 11" by (auto simp: t_def)
  have ab: "appendBits t 11 bb = Inr (bb @ binary (nat 11) t)"
    using t by (intro appendBits_small) auto
  have "list_all isAlphanumericUnit rest" using "1.prems" by simp
  from "1.IH"[OF refl _ ab this]
  obtain bb' where "makeAlphanumericLoop rest (bb @ binary (nat 11) t) = Inr bb'"
    by (auto simp: t_def)
  with ab show ?case by (simp add: Let_def t_def[symmetric])
next
  case (2 a bb)
  have "0 \<le> indexOf ALPHANUMERIC_CHARSET a" "indexOf ALPHANUMERIC_CHARSET a < 2 ^ nat 6"
    using "2.prems" indexOf_charset[of a] by auto
  then have "appendBits (indexOf ALPHANUMERIC_CHARSET a) 6 bb =
      Inr (bb @ binary (nat 6) (indexOf ALPHANUMERIC_CHARSET a))"
    by (intro appendBits_small) auto
  then show ?case by simp
next
  case (3 bb)
  then show ?case by simp
qed

lemma makeAlphanumeric_total:
  assumes "isAlphanumeric s"
  shows "\<exists>seg. makeAlphanumeric s = Inr seg \<and> mode seg = ALPHANUMERIC \<and>
               numChars seg = int (length s)"
proof -
  from assms obtain bb where "makeAlphanumericLoop s [] = Inr bb"
    using makeAlphanumericLoop_total[of s "[]"] by (auto simp: isAlphanumeric_def)
  with assms show ?thesis by (simp add: makeAlphanumeric_def newQrSegment_def)
qed

lemma isNumeric_imp_isAlphanumeric: "isNumeric s \<Longrightarrow> isAlphanumeric s"
  by (auto simp: isNumeric_def isAlphanumeric_def list_all_iff isDigitUnit_def isAlphanumericUnit_def)


section \<open>makeSegments: the UTF-8 bytes\<close>

text \<open>The code points of a UTF-16 string: a lead surrogate with the trail surrogate
  after it is one code point; a surrogate without its partner has none.\<close>

fun codePoints :: "jsstring \<Rightarrow> int list option" where
  "codePoints [] = Some []"
| "codePoints [c] =
     (if isLeadSurrogate c \<or> isTrailSurrogate c then None else Some [uint c])"
| "codePoints (c # d # rest) =
     (if isLeadSurrogate c then
        (if isTrailSurrogate d
         then map_option (\<lambda>cps. surrogatePairToCodePoint c d # cps) (codePoints rest)
         else None)
      else if isTrailSurrogate c then None
      else map_option (\<lambda>cps. uint c # cps) (codePoints (d # rest)))"

text \<open>The UTF-8 encoding of a string, when it has one.\<close>

definition utf8Encoding :: "jsstring \<Rightarrow> int list option" where
  "utf8Encoding s = map_option (\<lambda>cps. concat (map utf8Octets cps)) (codePoints s)"

definition uriUnescapedList :: jsstring where
  "uriUnescapedList =
     codeUnits ''ABCDEFGHIJKLMNOPQRSTUVWXYZabcdefghijklmnopqrstuvwxyz0123456789'' @
     codeUnits ''-_.!~*()'' @ [0x27] @ codeUnits '';/?:@&=+$,#''"

lemma uriUnescapedSet_list: "uriUnescapedSet = set uriUnescapedList"
  unfolding uriUnescapedSet_def uriUnescapedList_def set_append by auto

definition plainAscii :: "16 word \<Rightarrow> bool" where
  "plainAscii c = (\<not> isLeadSurrogate c \<and> \<not> isTrailSurrogate c \<and> uint c < 0x80 \<and> c \<noteq> 0x25)"

lemma unescaped_all_plain: "list_all plainAscii uriUnescapedList"
  by code_simp

lemma unescaped_plain: "c \<in> uriUnescapedSet \<Longrightarrow> plainAscii c"
  using unescaped_all_plain by (simp add: uriUnescapedSet_list list_all_iff)


definition escapeCodePoint :: "int \<Rightarrow> jsstring" where
  "escapeCodePoint cp =
     (if cp < 0x80 \<and> word_of_int cp \<in> uriUnescapedSet then [word_of_int cp]
      else percentEncode (utf8Octets cp))"

lemma pair_range:
  assumes "isLeadSurrogate c" "isTrailSurrogate d"
  shows "0x10000 \<le> surrogatePairToCodePoint c d" "surrogatePairToCodePoint c d < 0x110000"
  using assms
  by (auto simp: isLeadSurrogate_def isTrailSurrogate_def surrogatePairToCodePoint_def word_le_def)

lemma escape_unit:
  assumes "\<not> isLeadSurrogate c" "\<not> isTrailSurrogate c"
  shows "escapeCodePoint (uint c) =
           (if c \<in> uriUnescapedSet then [c] else percentEncode (utf8Octets (uint c)))"
  using unescaped_plain[of c] by (auto simp: escapeCodePoint_def plainAscii_def)

lemma escape_pair:
  assumes "isLeadSurrogate c" "isTrailSurrogate d"
  shows "escapeCodePoint (surrogatePairToCodePoint c d) =
           percentEncode (utf8Octets (surrogatePairToCodePoint c d))"
  using pair_range[OF assms] by (simp add: escapeCodePoint_def)

lemma encodeURILoop_codePoints:
  "encodeURILoop s R =
     (case codePoints s of
        None \<Rightarrow> Inl URIError
      | Some cps \<Rightarrow> Inr (R @ concat (map escapeCodePoint cps)))"
proof (induction s R rule: encodeURILoop.induct)
  case (1 R)
  then show ?case by simp
next
  case (2 c R)
  show ?case
  proof (cases "c \<in> uriUnescapedSet")
    case True
    with unescaped_plain[OF True] show ?thesis
      by (simp add: plainAscii_def escape_unit)
  next
    case False
    then show ?thesis by (simp add: escape_unit)
  qed
next
  case (3 c d rest R)
  show ?case
  proof (cases "c \<in> uriUnescapedSet")
    case True
    with unescaped_plain[OF True] "3.IH"(1)[OF True] show ?thesis
      by (simp add: plainAscii_def escape_unit split: option.splits)
  next
    case False
    show ?thesis
    proof (cases "isTrailSurrogate c")
      case True
      then have "\<not> isLeadSurrogate c"
        by (auto simp: isLeadSurrogate_def isTrailSurrogate_def word_le_def)
      with False True show ?thesis by simp
    next
      case nt: False
      show ?thesis
      proof (cases "isLeadSurrogate c")
        case True
        with False nt "3.IH"(2)[OF False nt True] show ?thesis
          by (simp add: escape_pair split: option.splits)
      next
        case nl: False
        with False nt "3.IH"(3)[OF False nt nl] show ?thesis
          by (simp add: escape_unit split: option.splits)
      qed
    qed
  qed
qed

lemma codePoints_range:
  "codePoints s = Some cps \<Longrightarrow> \<forall>cp \<in> set cps. 0 \<le> cp \<and> cp < 0x110000"
proof (induction s arbitrary: cps rule: codePoints.induct)
  case 1
  then show ?case by simp
next
  case (2 c)
  have "uint c < 65536" using uint_bounded[of c] by simp
  with 2 show ?case by (auto split: if_splits)
next
  case (3 c d rest)
  have u: "uint c < 65536" using uint_bounded[of c] by simp
  show ?case
  proof (cases "isLeadSurrogate c")
    case True
    with "3.prems" obtain cps' where t: "isTrailSurrogate d" and r: "codePoints rest = Some cps'"
      and cps: "cps = surrogatePairToCodePoint c d # cps'"
      by (auto split: if_splits)
    from "3.IH"(1)[OF True t r] pair_range[OF True t] show ?thesis by (auto simp: cps)
  next
    case False
    with "3.prems" obtain cps' where nt: "\<not> isTrailSurrogate c"
      and r: "codePoints (d # rest) = Some cps'" and cps: "cps = uint c # cps'"
      by (auto split: if_splits)
    from "3.IH"(2)[OF False nt r] u show ?thesis by (auto simp: cps)
  qed
qed


lemma hex_roundtrip_all: "list_all (\<lambda>n. digitValue (hexDigit n) = n) [0..15]"
  by code_simp

lemma hex_roundtrip: "0 \<le> n \<Longrightarrow> n < 16 \<Longrightarrow> digitValue (hexDigit n) = n"
  using hex_roundtrip_all by (simp add: list_all_iff)

lemma parseInt_hex:
  assumes "0 \<le> h" "h < 16" "0 \<le> l" "l < 16"
  shows "parseInt [hexDigit h, hexDigit l] 16 = Inr (h * 16 + l)"
  using assms by (simp add: parseInt_def hex_roundtrip)

lemma toUtf8_percent:
  "list_all (\<lambda>b. 0 \<le> b \<and> b < 256) octs \<Longrightarrow>
   toUtf8ByteArrayLoop (percentEncode octs @ ys) result = toUtf8ByteArrayLoop ys (result @ octs)"
proof (induction octs arbitrary: result)
  case Nil
  then show ?case by (simp add: percentEncode_def)
next
  case (Cons b octs)
  then have b: "0 \<le> b" "b < 256" and rest: "list_all (\<lambda>b. 0 \<le> b \<and> b < 256) octs" by auto
  have split: "percentEncode (b # octs) @ ys =
      0x25 # ([hexDigit (b div 16), hexDigit (b mod 16)] @ (percentEncode octs @ ys))"
    by (simp add: percentEncode_def)
  have "parseInt [hexDigit (b div 16), hexDigit (b mod 16)] 16 = Inr (b div 16 * 16 + b mod 16)"
    using b by (intro parseInt_hex) auto
  then have p: "parseInt [hexDigit (b div 16), hexDigit (b mod 16)] 16 = Inr b" by simp
  show ?case
    unfolding split
    by (subst toUtf8ByteArrayLoop.simps) (simp add: p Cons.IH[OF rest])
qed

lemma utf8Octets_bytes:
  assumes "0 \<le> cp" "cp < 0x110000"
  shows "list_all (\<lambda>b. 0 \<le> b \<and> b < 256) (utf8Octets cp)"
proof -
  have m: "0 \<le> x mod 0x40 \<and> x mod 0x40 < 0x40" for x :: int by simp
  have "0 \<le> cp div 0x40" "0 \<le> cp div 0x1000" "0 \<le> cp div 0x40000"
    using assms(1) by (simp_all add: pos_imp_zdiv_nonneg_iff)
  moreover have "cp < 0x800 \<Longrightarrow> cp div 0x40 < 0x20" "cp < 0x10000 \<Longrightarrow> cp div 0x1000 < 0x10"
    "cp div 0x40000 < 0x8"
    using assms(2) by auto
  ultimately show ?thesis
    using m[of cp] m[of "cp div 0x40"] m[of "cp div 0x1000"] assms
    by (auto simp: utf8Octets_def)
qed

lemma toUtf8_escape:
  assumes "0 \<le> cp" "cp < 0x110000"
  shows "toUtf8ByteArrayLoop (escapeCodePoint cp @ ys) result =
           toUtf8ByteArrayLoop ys (result @ utf8Octets cp)"
proof (cases "cp < 0x80 \<and> word_of_int cp \<in> uriUnescapedSet")
  case True
  then have plain: "plainAscii (word_of_int cp)" by (simp add: unescaped_plain)
  have u: "uint (word_of_int cp :: 16 word) = cp"
    using assms(1) True by (simp add: uint_word_of_int take_bit_int_eq_self)
  from True have "escapeCodePoint cp @ ys = word_of_int cp # ys" by (simp add: escapeCodePoint_def)
  moreover have "utf8Octets cp = [cp]" using True by (simp add: utf8Octets_def)
  ultimately show ?thesis
    using plain u by (simp add: toUtf8ByteArrayLoop.simps plainAscii_def)
next
  case False
  then have "escapeCodePoint cp = percentEncode (utf8Octets cp)"
    by (auto simp: escapeCodePoint_def)
  then show ?thesis by (simp add: toUtf8_percent[OF utf8Octets_bytes[OF assms]])
qed

lemma toUtf8_all:
  "\<forall>cp \<in> set cps. 0 \<le> cp \<and> cp < 0x110000 \<Longrightarrow>
   toUtf8ByteArrayLoop (concat (map escapeCodePoint cps)) result =
     Inr (result @ concat (map utf8Octets cps))"
proof (induction cps arbitrary: result)
  case Nil
  then show ?case by (simp add: toUtf8ByteArrayLoop.simps)
next
  case (Cons cp cps)
  then show ?case by (simp add: toUtf8_escape)
qed

lemma toUtf8ByteArray_utf8:
  "toUtf8ByteArray s = (case utf8Encoding s of None \<Rightarrow> Inl URIError | Some bytes \<Rightarrow> Inr bytes)"
proof (cases "codePoints s")
  case None
  then show ?thesis
    by (simp add: toUtf8ByteArray_def encodeURI_def encodeURILoop_codePoints utf8Encoding_def)
next
  case (Some cps)
  with toUtf8_all[OF codePoints_range[OF Some], of "[]"] show ?thesis
    by (simp add: toUtf8ByteArray_def encodeURI_def encodeURILoop_codePoints utf8Encoding_def)
qed

lemma utf8Encoding_bytes:
  assumes "utf8Encoding s = Some bytes"
  shows "list_all (\<lambda>b. 0 \<le> b \<and> b < 256) bytes"
proof -
  from assms obtain cps where c: "codePoints s = Some cps" and b: "bytes = concat (map utf8Octets cps)"
    by (auto simp: utf8Encoding_def)
  from codePoints_range[OF c] utf8Octets_bytes show ?thesis
    by (auto simp: b list_all_iff)
qed

lemma forEachM_appendBits8:
  "list_all (\<lambda>b. 0 \<le> b \<and> b < 256) data \<Longrightarrow>
   forEachM data (\<lambda>b bb. appendBits b 8 bb) acc = Inr (acc @ concat (map (binary 8) data))"
proof (induction data arbitrary: acc)
  case Nil
  then show ?case by simp
next
  case (Cons b data)
  then have "appendBits b 8 acc = Inr (acc @ binary (nat 8) b)"
    by (intro appendBits_small) auto
  with Cons show ?case by simp
qed

lemma makeBytes_bytes:
  assumes "list_all (\<lambda>b. 0 \<le> b \<and> b < 256) data"
  shows "makeBytes data =
           Inr \<lparr>mode = BYTE, numChars = int (length data), bitData = concat (map (binary 8) data)\<rparr>"
  by (simp add: makeBytes_def forEachM_appendBits8[OF assms] newQrSegment_def)


section \<open>makeSegments\<close>

text \<open>The conditions of the claim on the characters of the string.\<close>

definition onlyDigits :: "jsstring \<Rightarrow> bool" where
  "onlyDigits s = (set s \<subseteq> set (codeUnits ''0123456789''))"

definition onlyCharset :: "jsstring \<Rightarrow> bool" where
  "onlyCharset s =
     (set s \<subseteq> set (codeUnits ''0123456789ABCDEFGHIJKLMNOPQRSTUVWXYZ $%*+-./:''))"

lemma isNumeric_onlyDigits: "isNumeric s = onlyDigits s"
  by (auto simp: isNumeric_def onlyDigits_def list_all_iff isDigitUnit_iff)

lemma isAlphanumeric_onlyCharset: "isAlphanumeric s = onlyCharset s"
  by (auto simp: isAlphanumeric_def onlyCharset_def list_all_iff isAlphanumericUnit_iff
      ALPHANUMERIC_CHARSET_def)

text \<open>
  Claim C5, amended.  \<open>makeSegments s\<close> returns \<open>[]\<close> when \<open>s\<close> is empty; one NUMERIC segment
  when every character of \<open>s\<close> is a decimal digit; otherwise one ALPHANUMERIC segment when
  every character is in the alphanumeric charset; otherwise, when \<open>s\<close> has no unpaired
  surrogate, one BYTE segment over the UTF-8 encoding of \<open>s\<close>; and otherwise (an unpaired
  surrogate) it throws the \<open>URIError\<close> of \<open>encodeURI\<close>.
\<close>

theorem C5_makeSegments:
  "(s = [] \<longrightarrow> makeSegments s = Inr []) \<and>
   (s \<noteq> [] \<and> onlyDigits s \<longrightarrow>
      (\<exists>seg. makeSegments s = Inr [seg] \<and> makeNumeric s = Inr seg \<and>
             mode seg = NUMERIC \<and> numChars seg = int (length s))) \<and>
   (\<not> onlyDigits s \<and> onlyCharset s \<longrightarrow>
      (\<exists>seg. makeSegments s = Inr [seg] \<and> makeAlphanumeric s = Inr seg \<and>
             mode seg = ALPHANUMERIC \<and> numChars seg = int (length s))) \<and>
   (\<not> onlyCharset s \<longrightarrow>
      (case utf8Encoding s of
         Some bytes \<Rightarrow>
           makeSegments s =
             Inr [\<lparr>mode = BYTE, numChars = int (length bytes),
                   bitData = concat (map (binary 8) bytes)\<rparr>]
       | None \<Rightarrow> makeSegments s = Inl URIError))"
proof (intro conjI impI)
  assume "s = []"
  then show "makeSegments s = Inr []" by (simp add: makeSegments_def)
next
  assume a: "s \<noteq> [] \<and> onlyDigits s"
  then have num: "isNumeric s" by (simp add: isNumeric_onlyDigits)
  from makeNumeric_total[OF num] obtain seg where
    "makeNumeric s = Inr seg" "mode seg = NUMERIC" "numChars seg = int (length s)" by blast
  with a num show "\<exists>seg. makeSegments s = Inr [seg] \<and> makeNumeric s = Inr seg \<and>
             mode seg = NUMERIC \<and> numChars seg = int (length s)"
    by (simp add: makeSegments_def)
next
  assume a: "\<not> onlyDigits s \<and> onlyCharset s"
  then have nn: "\<not> isNumeric s" and al: "isAlphanumeric s"
    by (simp_all add: isNumeric_onlyDigits isAlphanumeric_onlyCharset)
  from nn have ne: "s \<noteq> []" by (auto simp: isNumeric_def)
  from makeAlphanumeric_total[OF al] obtain seg where
    "makeAlphanumeric s = Inr seg" "mode seg = ALPHANUMERIC" "numChars seg = int (length s)"
    by blast
  with nn al ne show "\<exists>seg. makeSegments s = Inr [seg] \<and> makeAlphanumeric s = Inr seg \<and>
             mode seg = ALPHANUMERIC \<and> numChars seg = int (length s)"
    by (simp add: makeSegments_def)
next
  assume a: "\<not> onlyCharset s"
  then have na: "\<not> isAlphanumeric s" by (simp add: isAlphanumeric_onlyCharset)
  then have nn: "\<not> isNumeric s" using isNumeric_imp_isAlphanumeric by blast
  from nn have ne: "s \<noteq> []" by (auto simp: isNumeric_def)
  have ms: "makeSegments s =
      bindE (toUtf8ByteArray s) (\<lambda>bytes. bindE (makeBytes bytes) (\<lambda>seg. Inr [seg]))"
    using na nn ne by (simp add: makeSegments_def)
  show "case utf8Encoding s of
         Some bytes \<Rightarrow>
           makeSegments s =
             Inr [\<lparr>mode = BYTE, numChars = int (length bytes),
                   bitData = concat (map (binary 8) bytes)\<rparr>]
       | None \<Rightarrow> makeSegments s = Inl URIError"
  proof (cases "utf8Encoding s")
    case None
    then show ?thesis by (simp add: ms toUtf8ByteArray_utf8)
  next
    case (Some bytes)
    then show ?thesis
      by (simp add: ms toUtf8ByteArray_utf8 makeBytes_bytes[OF utf8Encoding_bytes[OF Some]])
  qed
qed

theorem C5_makeSegments_counterexample:
  "[0xD800] \<noteq> [] \<and> \<not> isNumeric [0xD800] \<and> \<not> isAlphanumeric [0xD800] \<and>
   makeSegments [0xD800] = Inl URIError"
proof -
  have n: "\<not> isNumeric [0xD800]" by (simp add: isNumeric_def isDigitUnit_def)
  have a: "\<not> isAlphanumeric [0xD800]"
    by (simp add: isAlphanumeric_def isAlphanumericUnit_def codeUnits_def)
  have "utf8Encoding [0xD800] = None" by code_simp
  then have "toUtf8ByteArray [0xD800] = Inl URIError" by (simp add: toUtf8ByteArray_utf8)
  with n a show ?thesis by (simp add: makeSegments_def)
qed

theorem C5_makeSegments_witness:
  "makeSegments [] = Inr [] \<and>
   (\<exists>seg. makeSegments (codeUnits ''01234567'') = Inr [seg] \<and> mode seg = NUMERIC \<and>
          numChars seg = 8) \<and>
   (\<exists>seg. makeSegments (codeUnits ''HELLO WORLD'') = Inr [seg] \<and> mode seg = ALPHANUMERIC \<and>
          numChars seg = 11) \<and>
   makeSegments (codeUnits ''a'') =
     Inr [\<lparr>mode = BYTE, numChars = 1, bitData = [0, 1, 1, 0, 0, 0, 0, 1]\<rparr>] \<and>
   makeSegments [0x68, 0xE9] =
     Inr [\<lparr>mode = BYTE, numChars = 3,
           bitData = [0, 1, 1, 0, 1, 0, 0, 0, 1, 1, 0, 0, 0, 0, 1, 1, 1, 0, 1, 0, 1, 0, 0, 1]\<rparr>] \<and>
   makeSegments [0xDC00, 0x41] = Inl URIError"
proof -
  have d: "codeUnits ''01234567'' \<noteq> [] \<and> onlyDigits (codeUnits ''01234567'')"
    by (simp add: onlyDigits_def codeUnits_def)
  have h: "\<not> onlyDigits (codeUnits ''HELLO WORLD'') \<and> onlyCharset (codeUnits ''HELLO WORLD'')"
    by (simp add: onlyDigits_def onlyCharset_def codeUnits_def)
  have a: "\<not> onlyCharset (codeUnits ''a'')" "\<not> onlyCharset [0x68, 0xE9]"
    "\<not> onlyCharset [0xDC00, 0x41]"
    by (simp_all add: onlyCharset_def codeUnits_def)
  have u: "utf8Encoding (codeUnits ''a'') = Some [97]"
    "utf8Encoding [0x68, 0xE9] = Some [104, 195, 169]"
    "utf8Encoding [0xDC00, 0x41] = None"
    by code_simp+
  have b: "binary 8 97 = [0, 1, 1, 0, 0, 0, 0, 1]" "binary 8 104 = [0, 1, 1, 0, 1, 0, 0, 0]"
    "binary 8 195 = [1, 1, 0, 0, 0, 0, 1, 1]" "binary 8 169 = [1, 0, 1, 0, 1, 0, 0, 1]"
    by code_simp+
  have l: "int (length (codeUnits ''01234567'')) = 8" "int (length (codeUnits ''HELLO WORLD'')) = 11"
    by (simp_all add: codeUnits_def)
  from C5_makeSegments[of "[]"] have 1: "makeSegments [] = Inr []" by simp
  from C5_makeSegments[of "codeUnits ''01234567''"] d
  have 2: "\<exists>seg. makeSegments (codeUnits ''01234567'') = Inr [seg] \<and> mode seg = NUMERIC \<and>
          numChars seg = 8" unfolding l by blast
  from C5_makeSegments[of "codeUnits ''HELLO WORLD''"] h
  have 3: "\<exists>seg. makeSegments (codeUnits ''HELLO WORLD'') = Inr [seg] \<and> mode seg = ALPHANUMERIC \<and>
          numChars seg = 11" unfolding l by blast
  from C5_makeSegments[of "codeUnits ''a''"] a(1)
  have 4: "makeSegments (codeUnits ''a'') =
     Inr [\<lparr>mode = BYTE, numChars = 1, bitData = [0, 1, 1, 0, 0, 0, 0, 1]\<rparr>]"
    by (simp add: u b)
  from C5_makeSegments[of "[0x68, 0xE9]"] a(2)
  have 5: "makeSegments [0x68, 0xE9] =
     Inr [\<lparr>mode = BYTE, numChars = 3,
           bitData = [0, 1, 1, 0, 1, 0, 0, 0, 1, 1, 0, 0, 0, 0, 1, 1, 1, 0, 1, 0, 1, 0, 0, 1]\<rparr>]"
    by (simp add: u b)
  from C5_makeSegments[of "[0xDC00, 0x41]"] a(3)
  have 6: "makeSegments [0xDC00, 0x41] = Inl URIError" by (simp add: u)
  from 1 2 3 4 5 6 show ?thesis by blast
qed

section \<open>Loops that do not throw\<close>

lemma forEachM_total:
  assumes "I s"
    and "\<And>x s. x \<in> set xs \<Longrightarrow> I s \<Longrightarrow> \<exists>s'. body x s = Inr s' \<and> I s'"
  shows "\<exists>s'. forEachM xs body s = Inr s' \<and> I s'"
  using assms
proof (induction xs arbitrary: s)
  case Nil
  then show ?case by simp
next
  case (Cons x xs)
  from Cons.prems(2)[of x s] Cons.prems(1) obtain m where m: "body x s = Inr m" "I m" by auto
  have "\<exists>s'. forEachM xs body m = Inr s' \<and> I s'"
    by (rule Cons.IH[OF m(2)]) (use Cons.prems(2) in auto)
  with m show ?case by simp
qed

lemma forEachM_total_idx:
  assumes "I 0 s"
    and "\<And>i s. i < length xs \<Longrightarrow> I i s \<Longrightarrow> \<exists>s'. body (xs ! i) s = Inr s' \<and> I (Suc i) s'"
  shows "\<exists>s'. forEachM xs body s = Inr s' \<and> I (length xs) s'"
  using assms
proof (induction xs arbitrary: s I)
  case Nil
  then show ?case by simp
next
  case (Cons x xs)
  from Cons.prems(2)[of 0 s] Cons.prems(1) obtain m where m: "body x s = Inr m" "I (Suc 0) m"
    by auto
  have "\<exists>s'. forEachM xs body m = Inr s' \<and> I (Suc (length xs)) s'"
  proof (rule Cons.IH[where I = "\<lambda>i. I (Suc i)"])
    show "I (Suc 0) m" by (rule m(2))
    fix i t assume "i < length xs" "I (Suc i) t"
    then show "\<exists>s'. body (xs ! i) t = Inr s' \<and> I (Suc (Suc i)) s'"
      using Cons.prems(2)[of "Suc i" t] by simp
  qed
  with m show ?case by simp
qed

section \<open>Reed-Solomon on bytes\<close>

definition isByte :: "int \<Rightarrow> bool" where
  "isByte b = (0 \<le> b \<and> b < 256)"

definition doubleStep :: "int \<Rightarrow> int" where
  "doubleStep z = js_xor (js_shl z 1) (js_ushr z 7 * 0x11D)"

lemma doubleStep_all: "list_all (\<lambda>z. isByte (doubleStep z)) [0..255]"
  by code_simp

lemma doubleStep_byte: "isByte z \<Longrightarrow> isByte (doubleStep z)"
  using doubleStep_all by (simp add: list_all_iff isByte_def)

lemma js_xor_byte: "isByte a \<Longrightarrow> isByte b \<Longrightarrow> isByte (js_xor a b)"
proof -
  assume a: "isByte a" and b: "isByte b"
  then have "0 \<le> a XOR b" "a XOR b < 2 ^ 8"
    using XOR_upper[of a 8 b] by (simp_all add: isByte_def)
  then show ?thesis by (simp add: js_xor_def isByte_def toInt32_small)
qed

lemma js_ushr_byte_zero: "isByte x \<Longrightarrow> js_ushr x 8 = 0"
  using js_ushr_small[of x 8] by (simp add: isByte_def)

lemma bit_times_byte:
  assumes "isByte x" "isByte y" "i < 8"
  shows "isByte (js_and (js_ushr y (int i)) 1 * x)"
proof -
  have "js_ushr y (int i) = y div 2 ^ i"
    using assms by (intro js_ushr_small) (auto simp: isByte_def)
  moreover have "0 \<le> y div 2 ^ i" using assms(2) by (simp add: isByte_def pos_imp_zdiv_nonneg_iff)
  ultimately have "js_and (js_ushr y (int i)) 1 = (y div 2 ^ i) mod 2" by (simp add: js_and_one)
  moreover have "(y div 2 ^ i) mod 2 = 0 \<or> (y div 2 ^ i) mod 2 = 1" by auto
  ultimately show ?thesis using assms(1) by (auto simp: isByte_def)
qed

lemma reedSolomonMultiplyLoop_byte:
  assumes "isByte x" "isByte y"
  shows "i \<le> 8 \<Longrightarrow> isByte z \<Longrightarrow> isByte (reedSolomonMultiplyLoop x y i z)"
proof (induction i arbitrary: z)
  case 0
  then show ?case by simp
next
  case (Suc i)
  have "isByte (js_xor (doubleStep z) (js_and (js_ushr y (int i)) 1 * x))"
    using Suc.prems assms by (intro js_xor_byte doubleStep_byte bit_times_byte) auto
  then show ?case using Suc by (simp add: Let_def doubleStep_def)
qed

lemma reedSolomonMultiply_byte:
  assumes "isByte x" "isByte y"
  shows "\<exists>z. reedSolomonMultiply x y = Inr z \<and> isByte z"
proof -
  have "isByte (reedSolomonMultiplyLoop x y 8 0)"
    by (rule reedSolomonMultiplyLoop_byte[OF assms]) (simp_all add: isByte_def)
  then show ?thesis
    using assms by (simp add: reedSolomonMultiply_def js_ushr_byte_zero assert_def Let_def)
qed


definition byteList :: "nat \<Rightarrow> int list \<Rightarrow> bool" where
  "byteList n xs = (length xs = n \<and> list_all isByte xs)"

lemma byteList_update: "byteList n xs \<Longrightarrow> isByte b \<Longrightarrow> byteList n (xs[i := b])"
  by (auto simp: byteList_def list_all_iff dest: set_update_subset_insert[THEN subsetD])

lemma byteList_nth: "byteList n xs \<Longrightarrow> i < n \<Longrightarrow> isByte (xs ! i)"
  by (simp add: byteList_def list_all_length)

lemma divisorInner_total:
  assumes "byteList n result" "isByte root" "j < n"
  shows "\<exists>r. divisorInner root j result = Inr r \<and> byteList n r"
proof -
  from reedSolomonMultiply_byte[OF byteList_nth[OF assms(1,3)] assms(2)]
  obtain m where m: "reedSolomonMultiply (result ! j) root = Inr m" "isByte m" by blast
  have b1: "byteList n (result[j := m])" by (rule byteList_update[OF assms(1) m(2)])
  show ?thesis
  proof (cases "j + 1 < n")
    case True
    have "isByte (js_xor (result[j := m] ! j) (result[j := m] ! (j + 1)))"
      using b1 True assms(3) by (intro js_xor_byte byteList_nth[of n]) auto
    then have "byteList n ((result[j := m])[j := js_xor (result[j := m] ! j) (result[j := m] ! (j + 1))])"
      by (rule byteList_update[OF b1])
    with m True assms(1) show ?thesis
      by (simp add: divisorInner_def Let_def byteList_def)
  next
    case False
    with m b1 assms(1) show ?thesis by (simp add: divisorInner_def Let_def byteList_def)
  qed
qed

lemma divisorOuter_total:
  assumes "byteList n result" "isByte root"
  shows "\<exists>r root'. divisorOuter i (result, root) = Inr (r, root') \<and> byteList n r \<and> isByte root'"
proof -
  have len: "length result = n" using assms(1) by (simp add: byteList_def)
  have "\<exists>r. forEachM [0..<n] (divisorInner root) result = Inr r \<and> byteList n r"
    by (rule forEachM_total[where I = "byteList n", OF assms(1)])
       (simp add: divisorInner_total[OF _ assms(2)])
  then obtain r where r: "forEachM [0..<n] (divisorInner root) result = Inr r" "byteList n r"
    by blast
  have "isByte 2" by (simp add: isByte_def)
  from reedSolomonMultiply_byte[OF assms(2) this]
  obtain root' where "reedSolomonMultiply root 2 = Inr root'" "isByte root'" by blast
  with r show ?thesis by (simp add: divisorOuter_def len)
qed

lemma reedSolomonComputeDivisor_total:
  assumes "1 \<le> degree" "degree \<le> 255"
  shows "\<exists>r. reedSolomonComputeDivisor degree = Inr r \<and> byteList (nat degree) r"
proof -
  define init where "init = replicate (nat (degree - 1)) (0::int) @ [1]"
  have "length init = nat degree" using assms(1) by (simp add: init_def)
  then have i0: "byteList (nat degree) init"
    by (auto simp: byteList_def init_def isByte_def list_all_iff)
  have "\<exists>st. forEachM [0..<nat degree] divisorOuter (init, 1) = Inr st \<and>
           byteList (nat degree) (fst st) \<and> isByte (snd st)"
  proof (rule forEachM_total[where I = "\<lambda>st. byteList (nat degree) (fst st) \<and> isByte (snd st)"])
    show "byteList (nat degree) (fst (init, 1::int)) \<and> isByte (snd (init, 1::int))"
      using i0 by (simp add: isByte_def)
  next
    fix x and st :: "int list \<times> int"
    assume "byteList (nat degree) (fst st) \<and> isByte (snd st)"
    then show "\<exists>s'. divisorOuter x st = Inr s' \<and> byteList (nat degree) (fst s') \<and> isByte (snd s')"
      using divisorOuter_total[of "nat degree" "fst st" "snd st" x] by (cases st) auto
  qed
  then show ?thesis
    using assms by (auto simp: reedSolomonComputeDivisor_def Let_def init_def)
qed

lemma remainderInner_total:
  assumes "byteList n result" "isByte factor" "isByte coef" "i < n"
  shows "\<exists>r. remainderInner factor (coef, i) result = Inr r \<and> byteList n r"
proof -
  from reedSolomonMultiply_byte[OF assms(3,2)]
  obtain m where m: "reedSolomonMultiply coef factor = Inr m" "isByte m" by blast
  have "isByte (js_xor (result ! i) m)"
    by (intro js_xor_byte byteList_nth[OF assms(1,4)] m(2))
  then have "byteList n (result[i := js_xor (result ! i) m])" by (rule byteList_update[OF assms(1)])
  with m assms(1,4) show ?thesis by (simp add: remainderInner_def byteList_def)
qed

lemma remainderStep_total:
  assumes "byteList n divisor" "0 < n" "byteList n result" "isByte b"
  shows "\<exists>r. remainderStep divisor b result = Inr r \<and> byteList n r"
proof -
  from assms(2,3) obtain r rs where res: "result = r # rs"
    by (cases result) (auto simp: byteList_def)
  have r: "isByte r" and rs: "byteList n (rs @ [0])"
    using assms(3) by (auto simp: res byteList_def isByte_def)
  have f: "isByte (js_xor b r)" by (rule js_xor_byte[OF assms(4) r])
  have len: "length divisor = n" using assms(1) by (simp add: byteList_def)
  have "\<exists>r'. forEachM (zip divisor [0..<n]) (remainderInner (js_xor b r)) (rs @ [0]) = Inr r' \<and>
           byteList n r'"
  proof (rule forEachM_total[where I = "byteList n", OF rs])
    fix x :: "int \<times> nat" and s
    assume x: "x \<in> set (zip divisor [0..<n])" and s: "byteList n s"
    obtain coef i where xi: "x = (coef, i)" by (cases x) auto
    from x have "coef \<in> set divisor" "i < n" by (auto simp: xi dest: set_zip_leftD set_zip_rightD)
    then have "isByte coef" using assms(1) by (auto simp: byteList_def list_all_iff)
    from remainderInner_total[OF s f this \<open>i < n\<close>]
    show "\<exists>s'. remainderInner (js_xor b r) x s = Inr s' \<and> byteList n s'" by (simp add: xi)
  qed
  then show ?thesis by (simp add: remainderStep_def res Let_def len)
qed

lemma reedSolomonComputeRemainder_total:
  assumes "byteList n divisor" "0 < n" "list_all isByte data"
  shows "\<exists>r. reedSolomonComputeRemainder data divisor = Inr r \<and> byteList n r"
  unfolding reedSolomonComputeRemainder_def
proof (rule forEachM_total[where I = "byteList n"])
  show "byteList n (map (\<lambda>_. 0) divisor)"
    using assms(1) by (auto simp: byteList_def isByte_def list_all_iff)
next
  fix b s assume "b \<in> set data" "byteList n s"
  then show "\<exists>s'. remainderStep divisor b s = Inr s' \<and> byteList n s'"
    using assms(3) by (intro remainderStep_total[OF assms(1,2)]) (auto simp: list_all_iff)
qed

section \<open>Blocks and interleaving\<close>

definition numBlocksOf :: "int \<Rightarrow> QrEcc \<Rightarrow> int" where
  "numBlocksOf v ecl = NUM_ERROR_CORRECTION_BLOCKS ! nat (ordinal ecl) ! nat v"

definition blockEccLenOf :: "int \<Rightarrow> QrEcc \<Rightarrow> int" where
  "blockEccLenOf v ecl = ECC_CODEWORDS_PER_BLOCK ! nat (ordinal ecl) ! nat v"

definition rawCodewordsOf :: "int \<Rightarrow> int" where
  "rawCodewordsOf v = rawModulesClosedForm v div 8"

definition blockParamsOk :: "int \<Rightarrow> bool" where
  "blockParamsOk v =
     list_all (\<lambda>ecl. 1 \<le> numBlocksOf v ecl \<and> 1 \<le> blockEccLenOf v ecl \<and>
                     blockEccLenOf v ecl \<le> 255 \<and>
                     blockEccLenOf v ecl \<le> rawCodewordsOf v div numBlocksOf v ecl)
       [LOW, MEDIUM, QUARTILE, HIGH]"

lemma blockParamsOk_all: "list_all blockParamsOk [1..40]"
  by code_simp

lemma blockParams:
  assumes "1 \<le> v" "v \<le> 40"
  shows "1 \<le> numBlocksOf v ecl" "1 \<le> blockEccLenOf v ecl" "blockEccLenOf v ecl \<le> 255"
    "blockEccLenOf v ecl \<le> rawCodewordsOf v div numBlocksOf v ecl"
proof -
  have "blockParamsOk v"
    using blockParamsOk_all version_in_range[OF assms] by (simp add: list_all_iff)
  then show "1 \<le> numBlocksOf v ecl" "1 \<le> blockEccLenOf v ecl" "blockEccLenOf v ecl \<le> 255"
    "blockEccLenOf v ecl \<le> rawCodewordsOf v div numBlocksOf v ecl"
    by (cases ecl; simp add: blockParamsOk_def)+
qed

lemma js_slice_length:
  assumes "0 \<le> k" "k \<le> e" "e \<le> int (length xs)"
  shows "length (js_slice xs k e) = nat (e - k)" "set (js_slice xs k e) \<subseteq> set xs"
proof -
  have "js_slice xs k e = take (nat (e - k)) (drop (nat k) xs)"
    using assms by (simp add: js_slice_def Let_def min_def)
  then show "length (js_slice xs k e) = nat (e - k)" "set (js_slice xs k e) \<subseteq> set xs"
    using assms by (auto dest: in_set_takeD in_set_dropD)
qed

section \<open>The data codewords of well-formed segments\<close>

text \<open>A segment as the specification's data model has it: the character count is not
  negative and the data are bits.\<close>

definition isBit :: "int \<Rightarrow> bool" where
  "isBit b = (b = 0 \<or> b = 1)"

definition wellFormed :: "QrSegment \<Rightarrow> bool" where
  "wellFormed seg = (0 \<le> numChars seg \<and> list_all isBit (bitData seg))"

lemma binary_isBit: "list_all isBit (binary n v)"
  by (auto simp: list_all_iff isBit_def dest: binary_bits)

lemma numBitsCharCount_range:
  assumes "1 \<le> v" "v \<le> 40"
  shows "\<exists>cc. numCharCountBits m v = Inr cc \<and> 0 \<le> cc \<and> cc \<le> 16"
proof -
  have "(v + 7) div 17 = 0 \<or> (v + 7) div 17 = 1 \<or> (v + 7) div 17 = 2" using assms by auto
  then show ?thesis
    by (cases m) (auto simp: numCharCountBits_valid[OF assms] numeral_2_eq_2)
qed

lemma js_shl_one:
  assumes "0 \<le> cc" "cc \<le> 16"
  shows "js_shl 1 cc = 2 ^ nat cc"
proof -
  have "(2::int) ^ nat cc \<le> 2 ^ 16" using assms by (intro power_increasing) auto
  then have "(2::int) ^ nat cc < 2 ^ 31" by simp
  moreover have "cc mod 32 = cc" using assms by simp
  ultimately show ?thesis by (simp add: js_shl_def toInt32_small push_bit_eq_mult)
qed

lemma concatSegment_total:
  assumes v: "1 \<le> v" "v \<le> 40" and wf: "wellFormed seg"
    and cc: "numCharCountBits (mode seg) v = Inr cc" and fits: "\<not> numChars seg \<ge> js_shl 1 cc"
    and bb: "list_all isBit bb"
  shows "\<exists>bb'. concatSegment v seg bb = Inr bb' \<and> list_all isBit bb' \<and>
           int (length bb') = int (length bb) + (4 + cc + int (length (bitData seg)))"
proof -
  from numBitsCharCount_range[OF v, of "mode seg"] cc have c: "0 \<le> cc" "cc \<le> 16" by auto
  have "0 \<le> modeBits (mode seg) \<and> modeBits (mode seg) < 2 ^ nat 4" by (cases "mode seg") auto
  then have m: "appendBits (modeBits (mode seg)) 4 bb = Inr (bb @ binary (nat 4) (modeBits (mode seg)))"
    by (intro appendBits_small) auto
  have "numChars seg < 2 ^ nat cc" using fits js_shl_one[OF c] by simp
  then have n: "appendBits (numChars seg) cc (bb @ binary (nat 4) (modeBits (mode seg))) =
      Inr ((bb @ binary (nat 4) (modeBits (mode seg))) @ binary (nat cc) (numChars seg))"
    using wf c by (intro appendBits_small) (auto simp: wellFormed_def)
  show ?thesis
    using m n cc c wf bb
    by (simp add: concatSegment_def getData_def wellFormed_def binary_isBit)
qed

lemma concatSegments_total:
  assumes v: "1 \<le> v" "v \<le> 40"
  shows "list_all wellFormed segs \<Longrightarrow> getTotalBitsLoop segs v acc = Inr (Finite u) \<Longrightarrow>
         list_all isBit bb \<Longrightarrow>
         \<exists>bb'. forEachM segs (concatSegment v) bb = Inr bb' \<and> list_all isBit bb' \<and>
           int (length bb') = int (length bb) + (u - acc)"
proof (induction segs arbitrary: acc bb)
  case Nil
  then show ?case by simp
next
  case (Cons seg segs)
  from numBitsCharCount_range[OF v, of "mode seg"] obtain cc where
    cc: "numCharCountBits (mode seg) v = Inr cc" by blast
  from Cons.prems(2) have fits: "\<not> numChars seg \<ge> js_shl 1 cc"
    and rest: "getTotalBitsLoop segs v (acc + (4 + cc + int (length (bitData seg)))) = Inr (Finite u)"
    by (auto simp: cc split: if_splits)
  from Cons.prems(1) have wf: "wellFormed seg" "list_all wellFormed segs" by auto
  from concatSegment_total[OF v wf(1) cc fits Cons.prems(3)] obtain bb1 where
    b1: "concatSegment v seg bb = Inr bb1" "list_all isBit bb1"
    "int (length bb1) = int (length bb) + (4 + cc + int (length (bitData seg)))" by blast
  from Cons.IH[OF wf(2) rest b1(2)] obtain bb' where
    "forEachM segs (concatSegment v) bb1 = Inr bb'" "list_all isBit bb'"
    "int (length bb') = int (length bb1) + (u - (acc + (4 + cc + int (length (bitData seg)))))"
    by blast
  with b1 show ?case by simp
qed


lemma appendBits_zero:
  assumes "0 \<le> t" "t \<le> 31" "list_all isBit bb"
  shows "\<exists>bb'. appendBits 0 t bb = Inr bb' \<and> list_all isBit bb' \<and>
           int (length bb') = int (length bb) + t"
proof -
  have "appendBits 0 t bb = Inr (bb @ binary (nat t) 0)"
    using assms by (intro appendBits_small) auto
  then show ?thesis using assms by (simp add: binary_isBit)
qed

lemma pad_values: "js_xor 0xEC (js_xor 0xEC 0x11) = 0x11" "js_xor 0x11 (js_xor 0xEC 0x11) = 0xEC"
  by code_simp+

lemma padLoop_total:
  assumes "cap mod 8 = 0"
  shows "int (length bb) mod 8 = 0 \<Longrightarrow> int (length bb) \<le> cap \<Longrightarrow> list_all isBit bb \<Longrightarrow>
         pad = 0xEC \<or> pad = 0x11 \<Longrightarrow>
         \<exists>bb'. padLoop cap pad bb = Inr bb' \<and> list_all isBit bb' \<and> int (length bb') = cap"
proof (induction "nat (cap - int (length bb))" arbitrary: bb pad rule: less_induct)
  case less
  show ?case
  proof (cases "int (length bb) < cap")
    case False
    with less.prems show ?thesis by (subst padLoop.simps) auto
  next
    case True
    have "0 \<le> pad \<and> pad < 2 ^ nat 8" using less.prems(4) by auto
    then have ab: "appendBits pad 8 bb = Inr (bb @ binary (nat 8) pad)"
      by (intro appendBits_small) auto
    define bb1 where "bb1 = bb @ binary (nat 8) pad"
    have len1: "int (length bb1) = int (length bb) + 8" by (simp add: bb1_def)
    have "int (length bb) + 8 \<le> cap" using True less.prems(1) assms by presburger
    then have le1: "int (length bb1) \<le> cap" by (simp add: len1)
    have m1: "int (length bb1) mod 8 = 0" using less.prems(1) by (simp add: len1)
    have b1: "list_all isBit bb1" using less.prems(3) by (simp add: bb1_def binary_isBit)
    have p1: "js_xor pad (js_xor 0xEC 0x11) = 0xEC \<or> js_xor pad (js_xor 0xEC 0x11) = 0x11"
      using less.prems(4) pad_values by auto
    have "nat (cap - int (length bb1)) < nat (cap - int (length bb))" using True len1 by simp
    from less.hyps[OF this m1 le1 b1 p1] obtain bb' where
      "padLoop cap (js_xor pad (js_xor 0xEC 0x11)) bb1 = Inr bb'" "list_all isBit bb'"
      "int (length bb') = cap" by blast
    with True ab show ?thesis by (subst padLoop.simps) (simp add: bb1_def)
  qed
qed

lemma zerosLoop_length:
  "length dcw * 8 \<le> length bb \<Longrightarrow> length bb mod 8 = 0 \<Longrightarrow>
   zerosLoop bb dcw = dcw @ replicate (length bb div 8 - length dcw) 0"
proof (induction bb dcw rule: zerosLoop.induct)
  case (1 bb dcw)
  show ?case
  proof (cases "length dcw * 8 < length bb")
    case True
    then have le: "length (dcw @ [0::int]) * 8 \<le> length bb" using "1.prems"(2) by auto
    have "length dcw < length bb div 8" using True "1.prems"(2) by auto
    then have "length bb div 8 - length dcw = Suc (length bb div 8 - length (dcw @ [0::int]))"
      by auto
    with "1.IH"[OF True le "1.prems"(2)] True show ?thesis
      by (subst zerosLoop.simps) (simp add: replicate_app_Cons_same)
  next
    case False
    with "1.prems" have "length bb div 8 - length dcw = 0" by auto
    with False show ?thesis by (subst zerosLoop.simps) simp
  qed
qed

lemma js_or_byte: "isByte a \<Longrightarrow> isByte b \<Longrightarrow> isByte (js_or a b)"
proof -
  assume a: "isByte a" and b: "isByte b"
  then have "0 \<le> a OR b" "a OR b < 2 ^ 8"
    using OR_upper[of a 8 b] by (simp_all add: isByte_def)
  then show ?thesis by (simp add: js_or_def isByte_def toInt32_small)
qed

lemma js_and_seven:
  assumes "0 \<le> i"
  shows "js_and i 7 = i mod 8"
proof -
  have "i AND 7 = take_bit 3 i" by (simp add: take_bit_eq_mask mask_eq_exp_minus_1)
  then have "i AND 7 = i mod 8" by (simp add: take_bit_eq_mod)
  moreover have "0 \<le> i mod 8" "i mod 8 < 2 ^ 31" by auto
  ultimately show ?thesis by (simp add: js_and_def toInt32_small)
qed

lemma packBit_total:
  assumes d: "byteList n dcw" and b: "isBit b" and i: "0 \<le> i" "i < int n * 8" "i < 2 ^ 31"
  shows "\<exists>dcw'. packBit (b, i) dcw = Inr dcw' \<and> byteList n dcw'"
proof -
  have k: "js_ushr i 3 = i div 8"
    using js_ushr_small[of i 3] i by simp
  have kn: "nat (i div 8) < n" using i by auto
  have s: "0 \<le> 7 - i mod 8" "7 - i mod 8 \<le> 7" by auto
  have "(2::int) ^ nat (7 - i mod 8) \<le> 2 ^ 7" using s by (intro power_increasing) auto
  then have p: "(2::int) ^ nat (7 - i mod 8) < 256" by simp
  have "(7 - i mod 8) mod 32 = 7 - i mod 8" using s by simp
  then have "js_shl b (7 - js_and i 7) = toInt32 (b * 2 ^ nat (7 - i mod 8))"
    by (simp add: js_shl_def js_and_seven[OF i(1)] push_bit_eq_mult)
  moreover have "0 \<le> b * 2 ^ nat (7 - i mod 8)" "b * 2 ^ nat (7 - i mod 8) < 256"
    using b p by (auto simp: isBit_def)
  ultimately have sh: "isByte (js_shl b (7 - js_and i 7))"
    by (simp add: toInt32_small isByte_def)
  have "isByte (js_or (dcw ! nat (i div 8)) (js_shl b (7 - js_and i 7)))"
    by (intro js_or_byte byteList_nth[OF d kn] sh)
  then have "byteList n (dcw[nat (i div 8) := js_or (dcw ! nat (i div 8)) (js_shl b (7 - js_and i 7))])"
    by (rule byteList_update[OF d])
  then show ?thesis
    using kn d by (simp add: packBit_def k Let_def byteList_def)
qed

lemma pack_total:
  assumes bits: "list_all isBit bb" and len: "int (length bb) = int n * 8" and small: "n < 2 ^ 20"
  shows "\<exists>dcw. forEachM (zip bb [0..int (length bb) - 1]) packBit (zerosLoop bb []) = Inr dcw \<and>
           byteList n dcw"
proof -
  have l8: "length bb = n * 8" using len by linarith
  have "zerosLoop bb [] = replicate n 0"
    using zerosLoop_length[of "[]" bb] l8 by simp
  then have z: "byteList n (zerosLoop bb [])"
    by (simp add: byteList_def isByte_def list_all_iff)
  show ?thesis
  proof (rule forEachM_total[where I = "byteList n", OF z])
    fix x :: "int \<times> int" and s
    assume x: "x \<in> set (zip bb [0..int (length bb) - 1])" and s: "byteList n s"
    obtain b i where xi: "x = (b, i)" by (cases x) auto
    from x have "b \<in> set bb" "i \<in> set [0..int (length bb) - 1]"
      by (auto simp: xi dest: set_zip_leftD set_zip_rightD)
    then have b: "isBit b" and i: "0 \<le> i" "i < int n * 8"
      using bits len by (auto simp: list_all_iff)
    have "int n * 8 < 2 ^ 31" using small by simp
    with i have "i < 2 ^ 31" by simp
    from packBit_total[OF s b i this] show "\<exists>s'. packBit x s = Inr s' \<and> byteList n s'"
      by (simp add: xi)
  qed
qed


lemma dataCodewordsTable_small:
  assumes "1 \<le> v" "v \<le> 40"
  shows "dataCodewordsTable v ecl < 2 ^ 20"
proof -
  have "rawModulesClosedForm v \<le> 29648" by (rule getNumRawDataModules_valid(3)[OF assms])
  then have "rawModulesClosedForm v div 8 \<le> 3706" by simp
  moreover have "0 \<le> ECC_CODEWORDS_PER_BLOCK ! nat (ordinal ecl) ! nat v *
      NUM_ERROR_CORRECTION_BLOCKS ! nat (ordinal ecl) ! nat v"
    using blockParams(1,2)[OF assms, of ecl] by (simp add: numBlocksOf_def blockEccLenOf_def)
  ultimately show ?thesis by (simp add: dataCodewordsTable_def)
qed

lemma assembleDataCodewords_total:
  assumes v: "1 \<le> v" "v \<le> 40" and wf: "list_all wellFormed segs"
    and used: "getTotalBits segs v = Inr (Finite used)"
    and fits: "used \<le> dataCodewordsTable v ecl * 8"
  shows "\<exists>d. assembleDataCodewords segs v ecl used = Inr d \<and>
             byteList (nat (dataCodewordsTable v ecl)) d"
proof -
  define n where "n = dataCodewordsTable v ecl"
  define cap where "cap = n * 8"
  have n0: "0 \<le> n" unfolding n_def by (rule dataCodewordsTable_nonneg[OF v])
  from concatSegments_total[OF v wf used[unfolded getTotalBits_def], of "[]"]
  obtain bb where bb: "forEachM segs (concatSegment v) [] = Inr bb" "list_all isBit bb"
    "int (length bb) = used" by auto
  have le: "int (length bb) \<le> cap" using fits bb(3) by (simp add: cap_def n_def)
  define t where "t = min 4 (cap - int (length bb))"
  have t: "0 \<le> t" "t \<le> 31" using le by (auto simp: t_def)
  from appendBits_zero[OF t bb(2)]
  obtain bb1 where bb1: "appendBits 0 t bb = Inr bb1" "list_all isBit bb1"
    "int (length bb1) = int (length bb) + t" by auto
  have le1: "int (length bb1) \<le> cap" using le bb1(3) by (simp add: t_def)
  define p where "p = (8 - int (length bb1) mod 8) mod 8"
  have p: "0 \<le> p" "p \<le> 31" by (auto simp: p_def)
  from appendBits_zero[OF p bb1(2)]
  obtain bb2 where bb2: "appendBits 0 p bb1 = Inr bb2" "list_all isBit bb2"
    "int (length bb2) = int (length bb1) + p" by auto
  have m2: "int (length bb2) mod 8 = 0" unfolding bb2(3) p_def by presburger
  have c8: "cap mod 8 = 0" by (simp add: cap_def)
  have le2: "int (length bb2) \<le> cap" using le1 c8 unfolding bb2(3) p_def by presburger
  from padLoop_total[OF c8 m2 le2 bb2(2), of "0xEC"]
  obtain bb3 where bb3: "padLoop cap 0xEC bb2 = Inr bb3" "list_all isBit bb3"
    "int (length bb3) = cap" by auto
  have "nat n < 2 ^ 20" using dataCodewordsTable_small[OF v, of ecl] n0
    by (simp add: n_def nat_less_iff)
  moreover have "int (length bb3) = int (nat n) * 8" using bb3(3) n0 by (simp add: cap_def)
  ultimately obtain d where d: "forEachM (zip bb3 [0..int (length bb3) - 1]) packBit (zerosLoop bb3 []) = Inr d"
    "byteList (nat n) d"
    using pack_total[OF bb3(2), of "nat n"] by blast
  have s4: "bindE (padLoop cap 0xEC bb2)
        (\<lambda>bb. forEachM (zip bb [0..int (length bb) - 1]) packBit (zerosLoop bb [])) = Inr d"
    by (simp only: bb3(1) bindE_Inr d(1))
  have s3: "bindE (assert (int (length bb2) mod 8 = 0)) (\<lambda>_. bindE (padLoop cap 0xEC bb2)
        (\<lambda>bb. forEachM (zip bb [0..int (length bb) - 1]) packBit (zerosLoop bb []))) = Inr d"
    using m2 s4 by (simp only: assert_def not_True_eq_False if_False bindE_Inr simp_thms)
  have s2: "bindE (appendBits 0 ((8 - int (length bb1) mod 8) mod 8) bb1) (\<lambda>bb.
        bindE (assert (int (length bb) mod 8 = 0)) (\<lambda>_. bindE (padLoop cap 0xEC bb)
        (\<lambda>bb. forEachM (zip bb [0..int (length bb) - 1]) packBit (zerosLoop bb [])))) = Inr d"
    by (simp only: bb2(1)[unfolded p_def] bindE_Inr s3)
  have s1: "bindE (appendBits 0 (min 4 (cap - int (length bb))) bb) (\<lambda>bb.
        bindE (appendBits 0 ((8 - int (length bb) mod 8) mod 8) bb) (\<lambda>bb.
        bindE (assert (int (length bb) mod 8 = 0)) (\<lambda>_. bindE (padLoop cap 0xEC bb)
        (\<lambda>bb. forEachM (zip bb [0..int (length bb) - 1]) packBit (zerosLoop bb []))))) = Inr d"
    by (simp only: bb1(1)[unfolded t_def] bindE_Inr s2)
  have a1: "assert (int (length bb) = used) = Inr ()" "assert (int (length bb) \<le> cap) = Inr ()"
    using bb(3) le by (simp_all add: assert_def)
  have "assembleDataCodewords segs v ecl used = Inr d"
    unfolding assembleDataCodewords_def Let_def getNumDataCodewords_valid[OF v] bb(1) bindE_Inr
      n_def[symmetric] cap_def[symmetric] a1
    by (rule s1)
  with d(2) show ?thesis by (auto simp: n_def)
qed

section \<open>encodeSegments on well-formed segments\<close>

lemma adopt_fits: "stillFits used v e \<Longrightarrow> stillFits used v (adopt used v c e)"
  by (simp add: adopt_def)

lemma boostLoop_total:
  assumes v: "1 \<le> v" "v \<le> 40" and fits: "stillFits used v ecl"
  shows "\<exists>ecl'. boostLoop [MEDIUM, QUARTILE, HIGH] boost used v ecl = Inr ecl' \<and>
           stillFits used v ecl'"
proof (cases boost)
  case True
  have "stillFits used v (adopt used v HIGH (adopt used v QUARTILE (adopt used v MEDIUM ecl)))"
    by (intro adopt_fits fits)
  moreover from True have "boost = True" by simp
  ultimately show ?thesis using boostLoop_valid[OF v, of used ecl] by (simp only:) blast
next
  case False
  with fits show ?thesis by simp
qed

lemma encodeSegments_success:
  assumes args: "1 \<le> minV" "minV \<le> maxV" "maxV \<le> 40" "-1 \<le> msk" "msk \<le> 7"
    and wf: "list_all wellFormed segs"
    and found: "findVersion segs ecl maxV minV = Inr (v, used)"
  shows "\<exists>ecl' d. boostLoop [MEDIUM, QUARTILE, HIGH] boost used v ecl = Inr ecl' \<and>
           assembleDataCodewords segs v ecl' used = Inr d \<and>
           byteList (nat (dataCodewordsTable v ecl')) d \<and>
           encodeSegments segs ecl minV maxV msk boost = newQrCode v ecl' d msk"
proof -
  from findVersion_result[OF found args(1-3)]
  have v: "1 \<le> v" "v \<le> 40" and fits: "fitsAt segs ecl v"
    and used: "getTotalBits segs v = Inr (Finite used)"
    using args(1,3) by auto
  have still: "stillFits used v ecl"
    using fits used
    by (simp add: fitsAt_def stillFits_def getNumDataCodewords_valid[OF v] mult.commute)
  from boostLoop_total[OF v still, of boost] obtain ecl' where
    b: "boostLoop [MEDIUM, QUARTILE, HIGH] boost used v ecl = Inr ecl'"
    and s: "stillFits used v ecl'" by blast
  from s have le: "used \<le> dataCodewordsTable v ecl' * 8"
    by (simp add: stillFits_def getNumDataCodewords_valid[OF v])
  from assembleDataCodewords_total[OF v wf used le] obtain d where
    d: "assembleDataCodewords segs v ecl' used = Inr d"
    "byteList (nat (dataCodewordsTable v ecl')) d" by blast
  have "encodeSegments segs ecl minV maxV msk boost = newQrCode v ecl' d msk"
    by (simp only: encodeSegments_valid[OF args] found bindE_Inr prod.case b d(1))
  with b d show ?thesis by blast
qed

section \<open>The version and the level of the encoded symbol\<close>

text \<open>
  Claim C1.  For a version range \<open>1 \<le> minV \<le> maxV \<le> 40\<close> (and a mask argument in
  \<open>[-1, 7]\<close>, without which \<open>encodeSegments\<close> rejects its arguments): when no version of the
  range has \<open>getTotalBits(segs, v) \<le> 8 * getNumDataCodewords(v, ecl)\<close>, \<open>encodeSegments\<close>
  throws the \<open>RangeError\<close> "Data too long"; otherwise its search returns the smallest such
  version \<open>v\<close> of the range together with the used bits, every symbol it returns has that
  version, and on well-formed segments it assembles the data codewords (as many bytes as
  version \<open>v\<close> has at the level after the boost) and is the constructor's result
  \<open>new QrCode(v, ecl', dataCodewords, mask)\<close> at that version.
\<close>

theorem C1_smallest_version:
  assumes "1 \<le> minV" and "minV \<le> maxV" and "maxV \<le> 40" and "-1 \<le> msk" and "msk \<le> 7"
  shows "((\<forall>v. minV \<le> v \<and> v \<le> maxV \<longrightarrow> \<not> fitsAt segs ecl v) \<longrightarrow>
            encodeSegments segs ecl minV maxV msk boost = Inl (RangeError ''Data too long'')) \<and>
         (\<forall>v. minV \<le> v \<and> v \<le> maxV \<and> fitsAt segs ecl v \<and>
              (\<forall>w. minV \<le> w \<and> w < v \<longrightarrow> \<not> fitsAt segs ecl w) \<longrightarrow>
            (\<exists>used. findVersion segs ecl maxV minV = Inr (v, used) \<and>
                    getTotalBits segs v = Inr (Finite used) \<and>
                    (list_all wellFormed segs \<longrightarrow>
                       (\<exists>ecl' d. boostLoop [MEDIUM, QUARTILE, HIGH] boost used v ecl = Inr ecl' \<and>
                          assembleDataCodewords segs v ecl' used = Inr d \<and>
                          byteList (nat (dataCodewordsTable v ecl')) d \<and>
                          encodeSegments segs ecl minV maxV msk boost = newQrCode v ecl' d msk))) \<and>
            (\<forall>q. encodeSegments segs ecl minV maxV msk boost = Inr q \<longrightarrow> version q = v))"
proof (intro conjI impI allI)
  assume "\<forall>v. minV \<le> v \<and> v \<le> maxV \<longrightarrow> \<not> fitsAt segs ecl v"
  then have "findVersion segs ecl maxV minV = Inl (RangeError ''Data too long'')"
    by (rule findVersion_none[OF assms(1-3)])
  then show "encodeSegments segs ecl minV maxV msk boost = Inl (RangeError ''Data too long'')"
    by (simp add: encodeSegments_valid[OF assms])
next
  fix v
  assume v: "minV \<le> v \<and> v \<le> maxV \<and> fitsAt segs ecl v \<and>
              (\<forall>w. minV \<le> w \<and> w < v \<longrightarrow> \<not> fitsAt segs ecl w)"
  define used where "used = (case getTotalBits segs v of Inr (Finite u) \<Rightarrow> u | _ \<Rightarrow> 0)"
  from v have found: "findVersion segs ecl maxV minV = Inr (v, used)"
    unfolding used_def using findVersion_least[OF assms(1) _ _ assms(3), of v segs ecl] by blast
  from findVersion_result[OF found assms(1-3)]
  have total: "getTotalBits segs v = Inr (Finite used)" by blast
  have "list_all wellFormed segs \<longrightarrow>
      (\<exists>ecl' d. boostLoop [MEDIUM, QUARTILE, HIGH] boost used v ecl = Inr ecl' \<and>
         assembleDataCodewords segs v ecl' used = Inr d \<and>
         byteList (nat (dataCodewordsTable v ecl')) d \<and>
         encodeSegments segs ecl minV maxV msk boost = newQrCode v ecl' d msk)"
    using encodeSegments_success[OF assms _ found] by blast
  with found total
  show "\<exists>used. findVersion segs ecl maxV minV = Inr (v, used) \<and>
                    getTotalBits segs v = Inr (Finite used) \<and>
                    (list_all wellFormed segs \<longrightarrow>
                       (\<exists>ecl' d. boostLoop [MEDIUM, QUARTILE, HIGH] boost used v ecl = Inr ecl' \<and>
                          assembleDataCodewords segs v ecl' used = Inr d \<and>
                          byteList (nat (dataCodewordsTable v ecl')) d \<and>
                          encodeSegments segs ecl minV maxV msk boost = newQrCode v ecl' d msk))"
    by blast
  fix q
  assume "encodeSegments segs ecl minV maxV msk boost = Inr q"
  then obtain v' used' ecl' d where "findVersion segs ecl maxV minV = Inr (v', used')"
    and "newQrCode v' ecl' d msk = Inr q"
    by (rule encodeSegments_Inr[OF _ assms])
  with found newQrCode_result(1) show "version q = v" by simp
qed

theorem C1_smallest_version_witness:
  "encodeSegments [bytes20] LOW 1 1 0 True = Inl (RangeError ''Data too long'') \<and>
   findVersion [bytes20] LOW 40 1 = Inr (2, 172) \<and>
   getTotalBits [bytes20] 2 = Inr (Finite 172) \<and>
   boostLoop [MEDIUM, QUARTILE, HIGH] True 172 2 LOW = Inr QUARTILE \<and>
   assembleDataCodewords [bytes20] 2 QUARTILE 172 = Inr (65 # 64 # replicate 20 0) \<and>
   encodeSegments [bytes20] LOW 1 40 0 True = newQrCode 2 QUARTILE (65 # 64 # replicate 20 0) 0"
proof -
  have f1: "\<not> fitsAt [bytes20] LOW 1" by code_simp
  have f2: "fitsAt [bytes20] LOW 2" by code_simp
  have t2: "getTotalBits [bytes20] 2 = Inr (Finite 172)" by code_simp
  have wf: "list_all wellFormed [bytes20]" by code_simp
  have b2: "boostLoop [MEDIUM, QUARTILE, HIGH] True 172 2 LOW = Inr QUARTILE" by code_simp
  have a2: "assembleDataCodewords [bytes20] 2 QUARTILE 172 = Inr (65 # 64 # replicate 20 0)"
    by code_simp
  have none: "\<forall>v. (1::int) \<le> v \<and> v \<le> 1 \<longrightarrow> \<not> fitsAt [bytes20] LOW v"
  proof (intro allI impI)
    fix v :: int assume "1 \<le> v \<and> v \<le> 1"
    then have "v = 1" by simp
    with f1 show "\<not> fitsAt [bytes20] LOW v" by simp
  qed
  have least: "(1::int) \<le> 2 \<and> (2::int) \<le> 40 \<and> fitsAt [bytes20] LOW 2 \<and>
      (\<forall>w. 1 \<le> w \<and> w < (2::int) \<longrightarrow> \<not> fitsAt [bytes20] LOW w)"
  proof (intro conjI allI impI)
    fix w :: int assume "1 \<le> w \<and> w < 2"
    then have "w = 1" by simp
    with f1 show "\<not> fitsAt [bytes20] LOW w" by simp
  qed (simp_all add: f2)
  have "(\<forall>v. (1::int) \<le> v \<and> v \<le> 1 \<longrightarrow> \<not> fitsAt [bytes20] LOW v) \<longrightarrow>
      encodeSegments [bytes20] LOW 1 1 0 True = Inl (RangeError ''Data too long'')"
    by (rule C1_smallest_version[THEN conjunct1]) simp_all
  then have a: "encodeSegments [bytes20] LOW 1 1 0 True = Inl (RangeError ''Data too long'')"
    using none by (rule mp)
  have "(1::int) \<le> 2 \<and> (2::int) \<le> 40 \<and> fitsAt [bytes20] LOW 2 \<and>
      (\<forall>w. 1 \<le> w \<and> w < (2::int) \<longrightarrow> \<not> fitsAt [bytes20] LOW w) \<longrightarrow>
      (\<exists>used. findVersion [bytes20] LOW 40 1 = Inr (2, used) \<and>
              getTotalBits [bytes20] 2 = Inr (Finite used) \<and>
              (list_all wellFormed [bytes20] \<longrightarrow>
                 (\<exists>ecl' d. boostLoop [MEDIUM, QUARTILE, HIGH] True used 2 LOW = Inr ecl' \<and>
                    assembleDataCodewords [bytes20] 2 ecl' used = Inr d \<and>
                    byteList (nat (dataCodewordsTable 2 ecl')) d \<and>
                    encodeSegments [bytes20] LOW 1 40 0 True = newQrCode 2 ecl' d 0))) \<and>
      (\<forall>q. encodeSegments [bytes20] LOW 1 40 0 True = Inr q \<longrightarrow> version q = 2)"
    by (rule C1_smallest_version[THEN conjunct2, THEN spec]) simp_all
  then obtain used where u: "findVersion [bytes20] LOW 40 1 = Inr (2, used)"
    "getTotalBits [bytes20] 2 = Inr (Finite used)"
    "list_all wellFormed [bytes20] \<longrightarrow>
       (\<exists>ecl' d. boostLoop [MEDIUM, QUARTILE, HIGH] True used 2 LOW = Inr ecl' \<and>
          assembleDataCodewords [bytes20] 2 ecl' used = Inr d \<and>
          byteList (nat (dataCodewordsTable 2 ecl')) d \<and>
          encodeSegments [bytes20] LOW 1 40 0 True = newQrCode 2 ecl' d 0)"
    using least by blast
  from u(2) t2 have used: "used = 172" by simp
  from u(3) wf obtain ecl' d where
    e: "boostLoop [MEDIUM, QUARTILE, HIGH] True 172 2 LOW = Inr ecl'"
    "assembleDataCodewords [bytes20] 2 ecl' 172 = Inr d"
    "encodeSegments [bytes20] LOW 1 40 0 True = newQrCode 2 ecl' d 0"
    unfolding used by blast
  from e(1) b2 have ecl': "ecl' = QUARTILE" by simp
  from e(2) a2 have d: "d = 65 # 64 # replicate 20 0" unfolding ecl' by simp
  from a u(1) t2 b2 a2 e(3) show ?thesis unfolding used ecl' d by blast
qed

text \<open>
  Claim C3.  With \<open>boostEcl = true\<close> and valid arguments, when the search finds the
  version \<open>v\<close> with \<open>used\<close> bits at the requested level: the loop over MEDIUM, QUARTILE,
  HIGH adopts, in that order, each candidate at which the used bits still fit; the level
  it ends with is not below the requested one in ordinal order; every symbol
  \<open>encodeSegments\<close> returns has that level and the version \<open>v\<close>; and on well-formed segments
  \<open>encodeSegments\<close> assembles the data codewords for that level and is the constructor's
  result \<open>new QrCode(v, level, dataCodewords, mask)\<close> at the version \<open>v\<close> and that level.
\<close>

theorem C3_boost:
  assumes "1 \<le> minV" and "minV \<le> maxV" and "maxV \<le> 40" and "-1 \<le> msk" and "msk \<le> 7"
    and "findVersion segs ecl maxV minV = Inr (v, used)"
  shows "boostLoop [MEDIUM, QUARTILE, HIGH] True used v ecl =
           Inr (adopt used v HIGH (adopt used v QUARTILE (adopt used v MEDIUM ecl))) \<and>
         ordinal ecl \<le> ordinal (adopt used v HIGH (adopt used v QUARTILE (adopt used v MEDIUM ecl))) \<and>
         (\<forall>q. encodeSegments segs ecl minV maxV msk True = Inr q \<longrightarrow>
              version q = v \<and>
              errorCorrectionLevel q =
                adopt used v HIGH (adopt used v QUARTILE (adopt used v MEDIUM ecl))) \<and>
         (list_all wellFormed segs \<longrightarrow>
            (\<exists>d. assembleDataCodewords segs v
                    (adopt used v HIGH (adopt used v QUARTILE (adopt used v MEDIUM ecl))) used = Inr d \<and>
                 byteList (nat (dataCodewordsTable v
                    (adopt used v HIGH (adopt used v QUARTILE (adopt used v MEDIUM ecl))))) d \<and>
                 encodeSegments segs ecl minV maxV msk True =
                   newQrCode v (adopt used v HIGH (adopt used v QUARTILE (adopt used v MEDIUM ecl)))
                     d msk))"
proof -
  from findVersion_result[OF assms(6) assms(1-3)]
  have v: "1 \<le> v" "v \<le> 40" and fits: "fitsAt segs ecl v"
    and used: "getTotalBits segs v = Inr (Finite used)"
    using assms(1,3) by auto
  have still: "stillFits used v ecl"
    using fits used
    by (simp add: fitsAt_def stillFits_def getNumDataCodewords_valid[OF v] mult.commute)
  note boost = boostLoop_valid[OF v, of used ecl]
  define lvl where "lvl = adopt used v HIGH (adopt used v QUARTILE (adopt used v MEDIUM ecl))"
  have "version q = v \<and> errorCorrectionLevel q = lvl"
    if "encodeSegments segs ecl minV maxV msk True = Inr q" for q
  proof -
    from that obtain v' used' ecl' d where f': "findVersion segs ecl maxV minV = Inr (v', used')"
      and b': "boostLoop [MEDIUM, QUARTILE, HIGH] True used' v' ecl = Inr ecl'"
      and n': "newQrCode v' ecl' d msk = Inr q"
      by (rule encodeSegments_Inr[OF _ assms(1-5)])
    from f' assms(6) have eq: "v' = v" "used' = used" by simp_all
    from b'[unfolded eq boost] have "ecl' = lvl"
      by (simp add: lvl_def)
    with newQrCode_result(1,2)[OF n'] eq show ?thesis by simp
  qed
  moreover have "\<exists>d. assembleDataCodewords segs v lvl used = Inr d \<and>
                 byteList (nat (dataCodewordsTable v lvl)) d \<and>
                 encodeSegments segs ecl minV maxV msk True = newQrCode v lvl d msk"
    if "list_all wellFormed segs"
  proof -
    from encodeSegments_success[OF assms(1-5) that assms(6), of True] obtain ecl' d where
      e: "boostLoop [MEDIUM, QUARTILE, HIGH] True used v ecl = Inr ecl'"
      "assembleDataCodewords segs v ecl' used = Inr d"
      "byteList (nat (dataCodewordsTable v ecl')) d"
      "encodeSegments segs ecl minV maxV msk True = newQrCode v ecl' d msk" by blast
    from e(1)[unfolded boost] have "ecl' = lvl" by (simp add: lvl_def)
    with e show ?thesis by blast
  qed
  ultimately show ?thesis
    using boost adopt_chain_ordinal[OF v still] unfolding lvl_def by blast
qed

theorem C3_boost_witness:
  "findVersion [bytes5] LOW 40 1 = Inr (1, 52) \<and>
   boostLoop [MEDIUM, QUARTILE, HIGH] True 52 1 LOW = Inr HIGH \<and>
   ordinal LOW \<le> ordinal HIGH \<and>
   assembleDataCodewords [bytes5] 1 HIGH 52 = Inr [64, 80, 0, 0, 0, 0, 0, 236, 17] \<and>
   encodeSegments [bytes5] LOW 1 40 0 True = newQrCode 1 HIGH [64, 80, 0, 0, 0, 0, 0, 236, 17] 0"
proof -
  have found: "findVersion [bytes5] LOW 40 1 = Inr (1, 52)" by code_simp
  have chain: "adopt 52 1 HIGH (adopt 52 1 QUARTILE (adopt 52 1 MEDIUM LOW)) = HIGH" by code_simp
  have wf: "list_all wellFormed [bytes5]" by code_simp
  have a1: "assembleDataCodewords [bytes5] 1 HIGH 52 = Inr [64, 80, 0, 0, 0, 0, 0, 236, 17]"
    by code_simp
  have "boostLoop [MEDIUM, QUARTILE, HIGH] True 52 1 LOW =
           Inr (adopt 52 1 HIGH (adopt 52 1 QUARTILE (adopt 52 1 MEDIUM LOW))) \<and>
         ordinal LOW \<le> ordinal (adopt 52 1 HIGH (adopt 52 1 QUARTILE (adopt 52 1 MEDIUM LOW))) \<and>
         (\<forall>q. encodeSegments [bytes5] LOW 1 40 0 True = Inr q \<longrightarrow>
              version q = 1 \<and>
              errorCorrectionLevel q =
                adopt 52 1 HIGH (adopt 52 1 QUARTILE (adopt 52 1 MEDIUM LOW))) \<and>
         (list_all wellFormed [bytes5] \<longrightarrow>
            (\<exists>d. assembleDataCodewords [bytes5] 1
                    (adopt 52 1 HIGH (adopt 52 1 QUARTILE (adopt 52 1 MEDIUM LOW))) 52 = Inr d \<and>
                 byteList (nat (dataCodewordsTable 1
                    (adopt 52 1 HIGH (adopt 52 1 QUARTILE (adopt 52 1 MEDIUM LOW))))) d \<and>
                 encodeSegments [bytes5] LOW 1 40 0 True =
                   newQrCode 1 (adopt 52 1 HIGH (adopt 52 1 QUARTILE (adopt 52 1 MEDIUM LOW)))
                     d 0))"
    by (rule C3_boost[OF _ _ _ _ _ found]) simp_all
  then have b: "boostLoop [MEDIUM, QUARTILE, HIGH] True 52 1 LOW = Inr HIGH"
    and o: "ordinal LOW \<le> ordinal HIGH"
    and s: "list_all wellFormed [bytes5] \<longrightarrow>
            (\<exists>d. assembleDataCodewords [bytes5] 1 HIGH 52 = Inr d \<and>
                 byteList (nat (dataCodewordsTable 1 HIGH)) d \<and>
                 encodeSegments [bytes5] LOW 1 40 0 True = newQrCode 1 HIGH d 0)"
    unfolding chain by blast+
  from s wf obtain d where d: "assembleDataCodewords [bytes5] 1 HIGH 52 = Inr d"
    "encodeSegments [bytes5] LOW 1 40 0 True = newQrCode 1 HIGH d 0" by blast
  from d(1) a1 have "d = [64, 80, 0, 0, 0, 0, 0, 236, 17]" by simp
  with found b o a1 d(2) show ?thesis by blast
qed

section \<open>addEccAndnumbererleave returns\<close>

text \<open>The state of the loop over the blocks after \<open>i\<close> rounds: \<open>i\<close> blocks of
  \<open>shortBlockLen + 1\<close> bytes, and the index \<open>k\<close> into the data.\<close>

definition splitInv :: "int \<Rightarrow> int \<Rightarrow> int \<Rightarrow> nat \<Rightarrow> int list list \<times> int \<Rightarrow> bool" where
  "splitInv S E numShort i st =
     (case st of (blocks, k) \<Rightarrow>
        length blocks = i \<and> list_all (byteList (nat S + 1)) blocks \<and>
        k = int i * (S - E) + max 0 (int i - numShort))"

lemma splitBlock_step:
  assumes E: "1 \<le> E" "E \<le> S" and ns: "1 \<le> numShort" "numShort \<le> NB"
    and len: "int (length data) = NB * (S - E) + (NB - numShort)"
    and bytes: "list_all isByte data" and dv: "byteList (nat E) rsDiv"
    and i: "int i < NB"
    and inv: "splitInv S E numShort i st"
  shows "\<exists>st'. splitBlock data rsDiv S E numShort (int i) st = Inr st' \<and>
           splitInv S E numShort (Suc i) st'"
proof -
  obtain blocks k where st: "st = (blocks, k)" by (cases st) auto
  from inv have bl: "length blocks = i" "list_all (byteList (nat S + 1)) blocks"
    and k: "k = int i * (S - E) + max 0 (int i - numShort)"
    by (simp_all add: splitInv_def st)
  define extra :: int where "extra = (if int i < numShort then 0 else 1)"
  define e where "e = k + S - E + extra"
  have k0: "0 \<le> k" using E by (simp add: k)
  have ke: "k \<le> e" using E by (simp add: e_def extra_def)
  have e_eq: "e = (int i + 1) * (S - E) + max 0 (int i + 1 - numShort)"
    by (simp add: e_def k extra_def algebra_simps)
  have "(int i + 1) * (S - E) \<le> NB * (S - E)"
    using i E by (intro mult_right_mono) auto
  moreover have "max 0 (int i + 1 - numShort) \<le> NB - numShort" using i ns by auto
  ultimately have el: "e \<le> int (length data)" unfolding e_eq len by linarith
  define dat where "dat = js_slice data k e"
  from js_slice_length[OF k0 ke el] have dl: "length dat = nat (e - k)" and ds: "set dat \<subseteq> set data"
    by (simp_all add: dat_def)
  have db: "list_all isByte dat" using bytes ds by (auto simp: list_all_iff)
  have En: "0 < nat E" using E by simp
  from reedSolomonComputeRemainder_total[OF dv En db] obtain ecc where
    ecc: "reedSolomonComputeRemainder dat rsDiv = Inr ecc" "byteList (nat E) ecc" by blast
  define padded where "padded = (if int i < numShort then dat @ [0] else dat)"
  have pl: "length padded = nat (S - E + 1)"
    using E by (auto simp: padded_def dl e_def extra_def nat_add_distrib)
  have pb: "list_all isByte padded" using db by (simp add: padded_def isByte_def)
  have "length (padded @ ecc) = nat S + 1"
    using pl ecc(2) E by (simp add: byteList_def)
  then have blk: "byteList (nat S + 1) (padded @ ecc)"
    using pb ecc(2) by (simp add: byteList_def)
  have k': "k + int (length dat) = int (Suc i) * (S - E) + max 0 (int (Suc i) - numShort)"
    using ke by (simp add: dl e_eq algebra_simps)
  have de: "js_slice data k (k + S - E + (if int i < numShort then 0 else 1)) = dat"
    by (simp add: dat_def e_def extra_def)
  have "splitBlock data rsDiv S E numShort (int i) st =
      Inr (blocks @ [padded @ ecc], k + int (length dat))"
    by (simp only: splitBlock_def st prod.case Let_def de ecc(1) bindE_Inr padded_def)
  moreover have "splitInv S E numShort (Suc i) (blocks @ [padded @ ecc], k + int (length dat))"
    using bl blk k' by (simp add: splitInv_def)
  ultimately show ?thesis by simp
qed


lemma splitBlocks_total:
  assumes E: "1 \<le> E" "E \<le> S" and ns: "1 \<le> numShort" "numShort \<le> NB"
    and len: "int (length data) = NB * (S - E) + (NB - numShort)"
    and bytes: "list_all isByte data" and dv: "byteList (nat E) rsDiv"
  shows "\<exists>st. forEachM [0..NB - 1] (splitBlock data rsDiv S E numShort) ([], 0) = Inr st \<and>
           length (fst st) = nat NB \<and> list_all (byteList (nat S + 1)) (fst st)"
proof -
  have "\<exists>st. forEachM (map int [0..<nat NB]) (splitBlock data rsDiv S E numShort) ([], 0) = Inr st \<and>
           splitInv S E numShort (length (map int [0..<nat NB])) st"
  proof (rule forEachM_total_idx[where I = "splitInv S E numShort"])
    show "splitInv S E numShort 0 ([], 0)" using ns by (simp add: splitInv_def)
    fix i st
    assume i: "i < length (map int [0..<nat NB])" and inv: "splitInv S E numShort i st"
    from i have "int i < NB" by simp
    from splitBlock_step[OF E ns len bytes dv this inv] i
    show "\<exists>st'. splitBlock data rsDiv S E numShort (map int [0..<nat NB] ! i) st = Inr st' \<and>
              splitInv S E numShort (Suc i) st'" by simp
  qed
  then show ?thesis
    unfolding upto_as_upt by (auto simp: splitInv_def)
qed

lemma interleaveRow_total:
  assumes blocks: "list_all (byteList (nat S + 1)) blocks" and i: "0 \<le> i" "i \<le> S"
    and ns: "1 \<le> numShort"
  shows "\<exists>r'. forEachM (zip blocks [0..int (length blocks) - 1])
                 (interleaveCell S E numShort i) r = Inr r' \<and>
           int (length r') = int (length r) +
             (if i \<noteq> S - E then int (length blocks) else max 0 (int (length blocks) - numShort))"
proof -
  define xs where "xs = zip blocks (map int [0..<length blocks])"
  have lx: "length xs = length blocks" by (simp add: xs_def)
  define I where "I = (\<lambda>j (r' :: int list). int (length r') = int (length r) +
             (if i \<noteq> S - E then int j else max 0 (int j - numShort)))"
  have "\<exists>r'. forEachM xs (interleaveCell S E numShort i) r = Inr r' \<and> I (length xs) r'"
  proof (rule forEachM_total_idx[where I = I])
    show "I 0 r" using ns by (simp add: I_def)
    fix j t
    assume j: "j < length xs" and t: "I j t"
    then have x: "xs ! j = (blocks ! j, int j)" by (simp add: xs_def)
    from j blocks have "byteList (nat S + 1) (blocks ! j)" by (simp add: lx list_all_length)
    then have bl: "nat i < length (blocks ! j)" using i by (simp add: byteList_def)
    show "\<exists>s'. interleaveCell S E numShort i (xs ! j) t = Inr s' \<and> I (Suc j) s'"
      using bl t by (auto simp: x interleaveCell_def I_def)
  qed
  moreover have "[0..int (length blocks) - 1] = map int [0..<length blocks]"
    using upto_as_upt[of "int (length blocks)"] by simp
  ultimately show ?thesis by (simp add: xs_def[symmetric] lx I_def)
qed

lemma interleave_total:
  assumes E: "1 \<le> E" "E \<le> S" and ns: "1 \<le> numShort" "numShort \<le> NB"
    and blocks: "list_all (byteList (nat S + 1)) blocks" "length blocks = nat NB"
  shows "\<exists>r. forEachM [0..int (length (blocks ! 0)) - 1]
                (\<lambda>i. forEachM (zip blocks [0..int (length blocks) - 1])
                       (interleaveCell S E numShort i)) [] = Inr r \<and>
           int (length r) = (S + 1) * NB - numShort"
proof -
  have NB: "1 \<le> NB" using ns by simp
  then have "0 < length blocks" using blocks(2) by simp
  with blocks(1) have "byteList (nat S + 1) (blocks ! 0)" by (simp add: list_all_length)
  then have l0: "int (length (blocks ! 0)) = S + 1" using E by (simp add: byteList_def)
  define rows where "rows = map int [0..<nat (S + 1)]"
  define body where "body = (\<lambda>i. forEachM (zip blocks [0..int (length blocks) - 1])
                       (interleaveCell S E numShort i))"
  define I where "I = (\<lambda>i (r :: int list). int (length r) =
                         int i * NB - (if S - E < int i then numShort else 0))"
  have "\<exists>r. forEachM rows body [] = Inr r \<and> I (length rows) r"
  proof (rule forEachM_total_idx[where I = I])
    show "I 0 []" using E by (simp add: I_def)
    fix i t
    assume i: "i < length rows" and t: "I i t"
    then have x: "rows ! i = int i" and iS: "int i \<le> S" by (simp_all add: rows_def)
    from interleaveRow_total[OF blocks(1) _ iS ns(1), of E t] obtain t' where
      t': "body (int i) t = Inr t'"
      "int (length t') = int (length t) +
             (if int i \<noteq> S - E then int (length blocks) else max 0 (int (length blocks) - numShort))"
      unfolding body_def by auto
    have lb: "int (length blocks) = NB" using NB blocks(2) by simp
    have "I (Suc i) t'"
      using t ns unfolding I_def t'(2) lb by (auto simp: algebra_simps)
    with t' show "\<exists>s'. body (rows ! i) t = Inr s' \<and> I (Suc i) s'" by (simp add: x)
  qed
  moreover have "[0..int (length (blocks ! 0)) - 1] = rows"
    unfolding l0 rows_def using upto_as_upt[of "S + 1"] by simp
  moreover have "int (length rows) = S + 1" using E by (simp add: rows_def)
  ultimately show ?thesis using E unfolding body_def I_def by (auto simp: algebra_simps)
qed


lemma addEccAndnumbererleave_total:
  assumes v: "1 \<le> v" "v \<le> 40"
    and fields: "version this = v" "errorCorrectionLevel this = ecl"
    and data: "byteList (nat (dataCodewordsTable v ecl)) data"
  shows "\<exists>r. addEccAndnumbererleave this data = Inr r \<and>
           int (length r) = rawModulesClosedForm v div 8"
proof -
  define NB where "NB = NUM_ERROR_CORRECTION_BLOCKS ! nat (ordinal ecl) ! nat v"
  define E where "E = ECC_CODEWORDS_PER_BLOCK ! nat (ordinal ecl) ! nat v"
  define R where "R = rawModulesClosedForm v div 8"
  define S where "S = R div NB"
  define numShort where "numShort = NB - R mod NB"
  from blockParams[OF v, of ecl]
  have NB: "1 \<le> NB" and E: "1 \<le> E" "E \<le> 255" "E \<le> S"
    by (simp_all add: NB_def E_def S_def R_def numBlocksOf_def blockEccLenOf_def rawCodewordsOf_def)
  have ns: "1 \<le> numShort" "numShort \<le> NB"
  proof -
    have "0 \<le> R mod NB" "R mod NB < NB" using NB by simp_all
    then show "1 \<le> numShort" "numShort \<le> NB" unfolding numShort_def by linarith+
  qed
  have n: "dataCodewordsTable v ecl = R - E * NB"
    by (simp add: dataCodewordsTable_def R_def E_def NB_def)
  have R: "R = NB * S + R mod NB" by (simp add: S_def)
  have n0: "0 \<le> dataCodewordsTable v ecl" by (rule dataCodewordsTable_nonneg[OF v])
  then have dl: "int (length data) = dataCodewordsTable v ecl"
    using data by (simp add: byteList_def)
  have "R - E * NB = NB * (S - E) + (NB - numShort)"
    using R by (simp add: numShort_def algebra_simps)
  then have len: "int (length data) = NB * (S - E) + (NB - numShort)" by (simp add: dl n)
  have bytes: "list_all isByte data" using data by (simp add: byteList_def)
  from reedSolomonComputeDivisor_total[OF E(1,2)] obtain rsDiv where
    dv: "reedSolomonComputeDivisor E = Inr rsDiv" "byteList (nat E) rsDiv" by blast
  from splitBlocks_total[OF E(1,3) ns len bytes dv(2)] obtain st where
    st: "forEachM [0..NB - 1] (splitBlock data rsDiv S E numShort) ([], 0) = Inr st"
    "length (fst st) = nat NB" "list_all (byteList (nat S + 1)) (fst st)" by blast
  have ne: "fst st \<noteq> []" using st(2) NB by auto
  from interleave_total[OF E(1,3) ns st(3,2)] obtain r where
    r: "forEachM [0..int (length (fst st ! 0)) - 1]
                (\<lambda>i. forEachM (zip (fst st) [0..int (length (fst st)) - 1])
                       (interleaveCell S E numShort i)) [] = Inr r"
    "int (length r) = (S + 1) * NB - numShort" by blast
  have rl: "int (length r) = R" using R unfolding r(2) numShort_def by (simp add: algebra_simps)
  have a: "assert (int (length r) = R) = Inr ()" by (simp add: assert_def rl)
  have "addEccAndnumbererleave this data = Inr r"
    by (simp only: addEccAndnumbererleave_def Let_def fields getNumDataCodewords_valid[OF v]
          bindE_Inr dl simp_thms if_False getNumRawDataModules_valid(1)[OF v]
          NB_def[symmetric] E_def[symmetric] R_def[symmetric] S_def[symmetric]
          numShort_def[symmetric] dv(1) st(1) ne r(1) a)
  with rl show ?thesis by (simp add: R_def)
qed


text \<open>
  Claim C2.  For well-formed segments that fit at the version \<open>v\<close> and the level \<open>ecl\<close>
  (\<open>getTotalBits(segs, v) \<le> 8 * getNumDataCodewords(v, ecl)\<close>): the concatenation of the
  segments with the terminator and the padding returns the data codewords, as many bytes
  as \<open>getNumDataCodewords(v, ecl)\<close>; and on a symbol of that version and level
  \<open>addEccAndnumbererleave\<close> returns for them (split into blocks, Reed-Solomon parity
  appended, interleaved) a stream of exactly \<open>floor(getNumRawDataModules(v) / 8)\<close> codewords.
\<close>

theorem C2_codeword_stream:
  assumes "1 \<le> v" and "v \<le> 40" and "list_all wellFormed segs" and "fitsAt segs ecl v"
    and "version this = v" and "errorCorrectionLevel this = ecl"
  shows "\<exists>used d r raw. getTotalBits segs v = Inr (Finite used) \<and>
           assembleDataCodewords segs v ecl used = Inr d \<and>
           getNumDataCodewords v ecl = Inr (int (length d)) \<and>
           list_all isByte d \<and>
           addEccAndnumbererleave this d = Inr r \<and>
           getNumRawDataModules v = Inr raw \<and>
           int (length r) = raw div 8"
proof -
  note v = assms(1,2)
  from assms(4) obtain u where u: "getTotalBits segs v = Inr u"
    "number_le u (dataCodewordsTable v ecl * 8)"
    by (auto simp: fitsAt_def getNumDataCodewords_valid[OF v] mult.commute split: sum.splits)
  then obtain used where used: "getTotalBits segs v = Inr (Finite used)"
    and le: "used \<le> dataCodewordsTable v ecl * 8"
    by (cases u) auto
  from assembleDataCodewords_total[OF v assms(3) used le] obtain d where
    d: "assembleDataCodewords segs v ecl used = Inr d"
    "byteList (nat (dataCodewordsTable v ecl)) d" by blast
  have "0 \<le> dataCodewordsTable v ecl" by (rule dataCodewordsTable_nonneg[OF v])
  with d(2) have dl: "int (length d) = dataCodewordsTable v ecl" and db: "list_all isByte d"
    by (simp_all add: byteList_def)
  from addEccAndnumbererleave_total[OF v assms(5,6) d(2)] obtain r where
    r: "addEccAndnumbererleave this d = Inr r" "int (length r) = rawModulesClosedForm v div 8"
    by blast
  show ?thesis
    using used d(1) db r getNumRawDataModules_valid(1)[OF v]
    by (simp add: getNumDataCodewords_valid[OF v] dl)
qed

theorem C2_codeword_stream_witness:
  "getTotalBits [bytes5] 1 = Inr (Finite 52) \<and>
   assembleDataCodewords [bytes5] 1 HIGH 52 = Inr [64, 80, 0, 0, 0, 0, 0, 236, 17] \<and>
   getNumDataCodewords 1 HIGH = Inr 9 \<and>
   addEccAndnumbererleave (initialQrCode 1 HIGH 0) [64, 80, 0, 0, 0, 0, 0, 236, 17] =
     Inr [64, 80, 0, 0, 0, 0, 0, 236, 17, 32, 180, 201, 34, 25, 65, 152, 75, 59,
          24, 21, 138, 186, 74, 191, 105, 131] \<and>
   getNumRawDataModules 1 = Inr 208 \<and>
   int (length [64, 80, 0, 0, 0, 0, 0, 236, 17, 32, 180, 201, 34, 25, 65, 152, 75, 59,
          24, 21, 138, 186, 74, 191, 105, 131 :: int]) = 208 div 8"
proof -
  have wf: "list_all wellFormed [bytes5]" by code_simp
  have fits: "fitsAt [bytes5] HIGH 1" by code_simp
  have t: "getTotalBits [bytes5] 1 = Inr (Finite 52)" by code_simp
  have a: "assembleDataCodewords [bytes5] 1 HIGH 52 = Inr [64, 80, 0, 0, 0, 0, 0, 236, 17]"
    by code_simp
  have n: "getNumDataCodewords 1 HIGH = Inr 9" by code_simp
  have raw: "getNumRawDataModules 1 = Inr 208" by code_simp
  have e: "addEccAndnumbererleave (initialQrCode 1 HIGH 0) [64, 80, 0, 0, 0, 0, 0, 236, 17] =
     Inr [64, 80, 0, 0, 0, 0, 0, 236, 17, 32, 180, 201, 34, 25, 65, 152, 75, 59,
          24, 21, 138, 186, 74, 191, 105, 131]"
    by code_simp
  have f: "version (initialQrCode 1 HIGH 0) = 1" "errorCorrectionLevel (initialQrCode 1 HIGH 0) = HIGH"
    by (simp_all add: initialQrCode_def Let_def)
  have "\<exists>used d r raw. getTotalBits [bytes5] 1 = Inr (Finite used) \<and>
           assembleDataCodewords [bytes5] 1 HIGH used = Inr d \<and>
           getNumDataCodewords 1 HIGH = Inr (int (length d)) \<and>
           list_all isByte d \<and>
           addEccAndnumbererleave (initialQrCode 1 HIGH 0) d = Inr r \<and>
           getNumRawDataModules 1 = Inr raw \<and>
           int (length r) = raw div 8"
    by (rule C2_codeword_stream[OF _ _ wf fits f]) simp_all
  then obtain used d r raw where u: "getTotalBits [bytes5] 1 = Inr (Finite used)"
    "assembleDataCodewords [bytes5] 1 HIGH used = Inr d"
    "addEccAndnumbererleave (initialQrCode 1 HIGH 0) d = Inr r"
    "getNumRawDataModules 1 = Inr raw" "int (length r) = raw div 8" by blast
  from u(1) t have used: "used = 52" by simp
  from u(2) a have d: "d = [64, 80, 0, 0, 0, 0, 0, 236, 17]" unfolding used by simp
  from u(3) e have r: "r = [64, 80, 0, 0, 0, 0, 0, 236, 17, 32, 180, 201, 34, 25, 65, 152, 75, 59,
          24, 21, 138, 186, 74, 191, 105, 131]" unfolding d by simp
  from u(4) raw have "raw = 208" by simp
  with u(5) have "int (length r) = 208 div 8" by simp
  with t a n e raw show ?thesis unfolding r by blast
qed

end
